theory Spec2Isabelle
  imports Main "HOL-Library.Word" "HOL-Library.Multiset" "HOL-Library.Log_Nat"
begin

unbundle bit_operations_syntax

section \<open>Data model of chashmap\<close>

text \<open>
  Keys and values are raw bytes. A C argument pair (pointer, size) is modelled by the list
  of the \<open>size\<close> bytes the pointer designates; where the code tests the pointer against
  NULL the argument is a \<open>bytes option\<close> and \<open>None\<close> is the NULL pointer. A \<open>size_t\<close>
  and a \<open>uint64_t\<close> are 64-bit words (an LP64 target). \<open>hashmap_destroy\<close> and the
  warning that insert prints when a resize fails are left out.
\<close>

type_synonym byte = "8 word"
type_synonym bytes = "byte list"
type_synonym size_t = "64 word"
type_synonym uint64_t = "64 word"

text \<open>
  \<open>hash_func_t\<close> and \<open>eq_func_t\<close>: the size argument of the C function pointers is the
  length of the byte list. The \<open>int\<close> an equality function returns is only tested for
  being non-zero, so it is a \<open>bool\<close> here.
\<close>

type_synonym hash_func_t = "bytes \<Rightarrow> uint64_t"
type_synonym eq_func_t = "bytes \<Rightarrow> bytes \<Rightarrow> bool"

text \<open>
  \<open>struct HashMapEntry\<close>. The buffer \<open>key\<close> with \<open>key_size\<close> is the list \<open>key\<close>; the
  buffer \<open>value\<close> with \<open>value_size\<close> is \<open>val\<close>, which is \<open>None\<close> when the pointer is
  NULL. The \<open>next\<close> link is the tail of the list that models the chain: an entry is
  owned by exactly one chain.
\<close>

record HashMapEntry =
  key :: bytes
  val :: "bytes option"

text \<open>
  \<open>struct HashMap\<close>. \<open>buckets\<close> is \<open>None\<close> for a NULL pointer, otherwise the array of
  chains. The field \<open>size\<close> of the C struct is \<open>size_m\<close>. A \<open>float\<close> that is finite is a
  rational number; the model has no NaN and no infinity.
\<close>

record HashMap =
  buckets :: "HashMapEntry list list option"
  capacity :: size_t
  size_m :: size_t
  hash_func :: hash_func_t
  eq_func :: eq_func_t
  load_factor :: rat

text \<open>
  A call that dereferences a NULL pointer, reads an array out of its bounds or divides by
  zero has no defined result in C: the model returns \<open>Undefined_Behaviour\<close> there.
\<close>

datatype 'a outcome = Undefined_Behaviour | Returns 'a

text \<open>
  The heap: the outcomes of the successive \<open>malloc\<close> and \<open>calloc\<close> requests, \<open>False\<close> for
  a request that returns NULL. Requests beyond the end of the list succeed. Every function
  that allocates takes the outcomes still to come and returns the ones it has not used.
\<close>

type_synonym allocs = "bool list"

fun next_alloc :: "allocs \<Rightarrow> bool \<times> allocs" where
  "next_alloc [] = (True, [])"
| "next_alloc (ok # al) = (ok, al)"

definition DEFAULT_INITIAL_CAPACITY :: size_t where
  "DEFAULT_INITIAL_CAPACITY = 16"

definition DEFAULT_LOAD_FACTOR :: rat where
  "DEFAULT_LOAD_FACTOR = 3 / 4"

section \<open>Single-precision arithmetic of the load test\<close>

text \<open>
  \<open>to_float x\<close> rounds a non-negative rational to the nearest number with a 24-bit
  significand, ties to even: the conversion \<open>(float)n\<close> of a \<open>size_t\<close> and the rounding
  of a quotient of two floats. All values that occur (0, or between \<open>2^-64\<close> and \<open>2^64\<close>)
  are in the normal range of binary32, so the exponent needs no bound.
\<close>

definition pow2 :: "int \<Rightarrow> rat" where
  "pow2 i = (if 0 \<le> i then 2 ^ nat i else 1 / 2 ^ nat (- i))"

definition float_exponent :: "rat \<Rightarrow> int" where
  "float_exponent x =
     (let (p, q) = quotient_of x;
          d = bitlen p - bitlen q
      in if pow2 d \<le> x then d else d - 1)"

definition to_float :: "rat \<Rightarrow> rat" where
  "to_float x =
     (if x \<le> 0 then 0
      else let ulp = pow2 (float_exponent x - 23);
               s = x / ulp;
               n = \<lfloor>s\<rfloor>;
               r = s - of_int n;
               n' = (if 1 / 2 < r \<or> (r = 1 / 2 \<and> odd n) then n + 1 else n)
           in of_int n' * ulp)"

section \<open>Default hash and equality\<close>

text \<open>The body of the loop of \<open>default_hash\<close>, for one byte.\<close>

definition hash_step :: "byte \<Rightarrow> uint64_t \<Rightarrow> uint64_t" where
  "hash_step b hash =
     (let h1 = hash + ucast b;
          h2 = h1 + push_bit 10 h1
      in h2 XOR drop_bit 6 h2)"

definition default_hash :: hash_func_t where
  "default_hash data =
     (let h0 = fold hash_step data 0;
          h1 = h0 + push_bit 3 h0;
          h2 = h1 XOR drop_bit 11 h1
      in h2 + push_bit 15 h2)"

text \<open>\<open>memcmp\<close> over the common size of two buffers of that size.\<close>

definition default_eq :: eq_func_t where
  "default_eq data1 data2 = (data1 = data2)"

section \<open>Entries and chains\<close>

text \<open>
  The test of the chain walks of insert, get and remove:
  \<open>entry->key_size == key_size && map->eq_func(entry->key, key_data, key_size)\<close>.
\<close>

definition key_matches :: "eq_func_t \<Rightarrow> bytes \<Rightarrow> HashMapEntry \<Rightarrow> bool" where
  "key_matches eq k entry \<longleftrightarrow> length (key entry) = length k \<and> eq (key entry) k"

text \<open>
  \<open>hashmap_create_entry\<close>: three requests (the node, the key buffer, the value buffer);
  the first that fails ends the call with NULL, what was allocated before being freed.
\<close>

definition hashmap_create_entry ::
  "allocs \<Rightarrow> bytes \<Rightarrow> bytes \<Rightarrow> HashMapEntry option \<times> allocs" where
  "hashmap_create_entry al k v =
     (case next_alloc al of
        (False, al1) \<Rightarrow> (None, al1)
      | (True, al1) \<Rightarrow>
          (case next_alloc al1 of
             (False, al2) \<Rightarrow> (None, al2)
           | (True, al2) \<Rightarrow>
               (case next_alloc al2 of
                  (False, al3) \<Rightarrow> (None, al3)
                | (True, al3) \<Rightarrow> (Some \<lparr>key = k, val = Some v\<rparr>, al3))))"

text \<open>The update of insert: the value pointer of the first matching entry is replaced.\<close>

fun chain_set_value ::
  "eq_func_t \<Rightarrow> bytes \<Rightarrow> bytes option \<Rightarrow> HashMapEntry list \<Rightarrow> HashMapEntry list" where
  "chain_set_value eq k nv [] = []"
| "chain_set_value eq k nv (entry # chain) =
     (if key_matches eq k entry then entry\<lparr>val := nv\<rparr> # chain
      else entry # chain_set_value eq k nv chain)"

text \<open>The unlinking of remove: the first matching entry leaves the chain, if there is one.\<close>

fun chain_unlink ::
  "eq_func_t \<Rightarrow> bytes \<Rightarrow> HashMapEntry list \<Rightarrow> HashMapEntry list option" where
  "chain_unlink eq k [] = None"
| "chain_unlink eq k (entry # chain) =
     (if key_matches eq k entry then Some chain
      else map_option ((#) entry) (chain_unlink eq k chain))"

section \<open>Initialisation\<close>

text \<open>
  \<open>hashmap_init\<close>. The map argument is \<open>None\<close> for a NULL pointer, otherwise the struct it
  points to, whatever it holds. A NULL \<open>hash_func\<close> or \<open>eq_func\<close> is \<open>None\<close>.
\<close>

definition hashmap_init ::
  "allocs \<Rightarrow> HashMap option \<Rightarrow> size_t \<Rightarrow> hash_func_t option \<Rightarrow> eq_func_t option \<Rightarrow> rat
     \<Rightarrow> int \<times> HashMap option \<times> allocs" where
  "hashmap_init al hmap cap hf ef lf =
     (case hmap of
        None \<Rightarrow> (- 1, None, al)
      | Some m \<Rightarrow>
          (let cap1 = (if cap = 0 then DEFAULT_INITIAL_CAPACITY else cap);
               lf1 = (if lf \<le> 0 then DEFAULT_LOAD_FACTOR else lf);
               m1 = m\<lparr>capacity := cap1, size_m := 0,
                        hash_func := (case hf of Some h \<Rightarrow> h | None \<Rightarrow> default_hash),
                        eq_func := (case ef of Some e \<Rightarrow> e | None \<Rightarrow> default_eq),
                        load_factor := lf1\<rparr>
           in case next_alloc al of
                (True, al1) \<Rightarrow> (0, Some (m1\<lparr>buckets := Some (replicate (unat cap1) [])\<rparr>), al1)
              | (False, al1) \<Rightarrow> (- 1, Some (m1\<lparr>buckets := None\<rparr>), al1)))"

section \<open>Resize\<close>

text \<open>One step of the rehash loop: the entry becomes the head of its new chain.\<close>

definition relink ::
  "hash_func_t \<Rightarrow> size_t \<Rightarrow> HashMapEntry \<Rightarrow> HashMapEntry list list \<Rightarrow> HashMapEntry list list" where
  "relink h new_capacity entry new_buckets =
     (let new_index = unat (h (key entry) mod new_capacity)
      in new_buckets[new_index := entry # new_buckets ! new_index])"

text \<open>
  The chains the rehash loop reads, \<open>buckets[0]\<close> to \<open>buckets[capacity - 1]\<close>: undefined when
  the array is NULL or shorter than \<open>capacity\<close>.
\<close>

definition old_chains :: "HashMap \<Rightarrow> HashMapEntry list list outcome" where
  "old_chains m =
     (if capacity m = 0 then Returns []
      else case buckets m of
             None \<Rightarrow> Undefined_Behaviour
           | Some bs \<Rightarrow>
               if length bs < unat (capacity m) then Undefined_Behaviour
               else Returns (take (unat (capacity m)) bs))"

definition hashmap_resize :: "allocs \<Rightarrow> HashMap \<Rightarrow> size_t \<Rightarrow> (int \<times> HashMap \<times> allocs) outcome" where
  "hashmap_resize al m new_capacity =
     (if new_capacity < 1 then Returns (- 1, m, al)
      else case next_alloc al of
             (False, al1) \<Rightarrow> Returns (- 1, m, al1)
           | (True, al1) \<Rightarrow>
               (case old_chains m of
                  Undefined_Behaviour \<Rightarrow> Undefined_Behaviour
                | Returns old \<Rightarrow>
                    Returns (0,
                      m\<lparr>buckets :=
                          Some (fold (\<lambda>chain nb. fold (relink (hash_func m) new_capacity) chain nb)
                                  old (replicate (unat new_capacity) [])),
                        capacity := new_capacity\<rparr>,
                      al1)))"

section \<open>Insert\<close>

text \<open>\<open>(float)map->size / (float)map->capacity\<close>, for a capacity that is not 0.\<close>

definition current_load :: "HashMap \<Rightarrow> rat" where
  "current_load m =
     to_float (to_float (of_nat (unat (size_m m))) / to_float (of_nat (unat (capacity m))))"

text \<open>
  The growth step of insert. The status of the resize is only logged, so the step returns
  the map and the heap.
\<close>

definition insert_grow :: "allocs \<Rightarrow> HashMap \<Rightarrow> (HashMap \<times> allocs) outcome" where
  "insert_grow al m =
     (if load_factor m \<le> current_load m
      then case hashmap_resize al m (capacity m * 2) of
             Undefined_Behaviour \<Rightarrow> Undefined_Behaviour
           | Returns (resize_status, m1, al1) \<Rightarrow> Returns (m1, al1)
      else Returns (m, al))"

text \<open>The rest of insert: the walk of the chain, then the update or the new entry.\<close>

definition insert_place ::
  "allocs \<Rightarrow> HashMap \<Rightarrow> bytes \<Rightarrow> bytes \<Rightarrow> (int \<times> HashMap \<times> allocs) outcome" where
  "insert_place al m k v =
     (let index = unat (hash_func m k mod capacity m)
      in case buckets m of
           None \<Rightarrow> Undefined_Behaviour
         | Some bs \<Rightarrow>
             if length bs \<le> index then Undefined_Behaviour
             else if \<exists>entry \<in> set (bs ! index). key_matches (eq_func m) k entry
             then (case next_alloc al of
                     (False, al1) \<Rightarrow>
                       Returns (- 1,
                         m\<lparr>buckets := Some (bs[index := chain_set_value (eq_func m) k None (bs ! index)])\<rparr>,
                         al1)
                   | (True, al1) \<Rightarrow>
                       Returns (0,
                         m\<lparr>buckets := Some (bs[index := chain_set_value (eq_func m) k (Some v) (bs ! index)])\<rparr>,
                         al1))
             else (case hashmap_create_entry al k v of
                     (None, al1) \<Rightarrow> Returns (- 1, m, al1)
                   | (Some new_entry, al1) \<Rightarrow>
                       Returns (0,
                         m\<lparr>buckets := Some (bs[index := new_entry # bs ! index]),
                           size_m := size_m m + 1\<rparr>,
                         al1)))"

text \<open>
  \<open>hashmap_insert\<close>. With a capacity of 0 the call divides by zero at the latest when it
  computes the index (a resize to \<open>0 * 2\<close> is refused before it touches the map).
\<close>

definition hashmap_insert ::
  "allocs \<Rightarrow> HashMap option \<Rightarrow> bytes option \<Rightarrow> bytes
     \<Rightarrow> (int \<times> HashMap option \<times> allocs) outcome" where
  "hashmap_insert al hmap key_data val_data =
     (case (hmap, key_data) of
        (Some m, Some k) \<Rightarrow>
          if k = [] then Returns (- 1, hmap, al)
          else if capacity m = 0 then Undefined_Behaviour
          else (case insert_grow al m of
                  Undefined_Behaviour \<Rightarrow> Undefined_Behaviour
                | Returns (m1, al1) \<Rightarrow>
                    (case insert_place al1 m1 k val_data of
                       Undefined_Behaviour \<Rightarrow> Undefined_Behaviour
                     | Returns (r, m2, al2) \<Rightarrow> Returns (r, Some m2, al2)))
      | _ \<Rightarrow> Returns (- 1, hmap, al))"

section \<open>Get and remove\<close>

text \<open>
  What get stores through its out-pointers: nothing, a NULL in \<open>*out_val\<close> (the copy
  could not be allocated), or the copy, whose length goes to \<open>*out_size\<close>.
\<close>

datatype get_out = No_Write | Wrote_Null | Wrote bytes

text \<open>
  \<open>hashmap_get\<close>. \<open>out_val\<close> and \<open>out_size\<close> say whether the two out-pointers are
  non-NULL. Copying from an entry whose value pointer is NULL is undefined.
\<close>

definition hashmap_get ::
  "allocs \<Rightarrow> HashMap option \<Rightarrow> bytes option \<Rightarrow> bool \<Rightarrow> bool
     \<Rightarrow> (int \<times> get_out \<times> allocs) outcome" where
  "hashmap_get al hmap key_data out_val out_size =
     (case (hmap, key_data) of
        (Some m, Some k) \<Rightarrow>
          if k = [] then Returns (- 1, No_Write, al)
          else if capacity m = 0 then Undefined_Behaviour
          else (let index = unat (hash_func m k mod capacity m)
                in case buckets m of
                     None \<Rightarrow> Undefined_Behaviour
                   | Some bs \<Rightarrow>
                       if length bs \<le> index then Undefined_Behaviour
                       else (case find (key_matches (eq_func m) k) (bs ! index) of
                               None \<Rightarrow> Returns (0, No_Write, al)
                             | Some entry \<Rightarrow>
                                 if out_val \<and> out_size
                                 then (case next_alloc al of
                                         (False, al1) \<Rightarrow> Returns (- 1, Wrote_Null, al1)
                                       | (True, al1) \<Rightarrow>
                                           (case val entry of
                                              None \<Rightarrow> Undefined_Behaviour
                                            | Some v \<Rightarrow> Returns (1, Wrote v, al1)))
                                 else Returns (1, No_Write, al)))
      | _ \<Rightarrow> Returns (- 1, No_Write, al))"

definition hashmap_remove ::
  "HashMap option \<Rightarrow> bytes option \<Rightarrow> (int \<times> HashMap option) outcome" where
  "hashmap_remove hmap key_data =
     (case (hmap, key_data) of
        (Some m, Some k) \<Rightarrow>
          if k = [] then Returns (- 1, hmap)
          else if capacity m = 0 then Undefined_Behaviour
          else (let index = unat (hash_func m k mod capacity m)
                in case buckets m of
                     None \<Rightarrow> Undefined_Behaviour
                   | Some bs \<Rightarrow>
                       if length bs \<le> index then Undefined_Behaviour
                       else (case chain_unlink (eq_func m) k (bs ! index) of
                               None \<Rightarrow> Returns (0, hmap)
                             | Some chain \<Rightarrow>
                                 Returns (1,
                                   Some (m\<lparr>buckets := Some (bs[index := chain]),
                                           size_m := size_m m - 1\<rparr>))))
      | _ \<Rightarrow> Returns (- 1, hmap))"

section \<open>Invariants and the contract of the strategy functions\<close>

text \<open>All the entries of a map, chain after chain.\<close>

definition entries :: "HashMap \<Rightarrow> HashMapEntry list" where
  "entries m = (case buckets m of None \<Rightarrow> [] | Some bs \<Rightarrow> concat bs)"

text \<open>Every entry of chain \<open>i\<close> has a key whose hash modulo the capacity is \<open>i\<close>.\<close>

definition chains_ok :: "hash_func_t \<Rightarrow> size_t \<Rightarrow> HashMapEntry list list \<Rightarrow> bool" where
  "chains_ok h cap bs \<longleftrightarrow>
     (\<forall>i<length bs. \<forall>entry \<in> set (bs ! i). unat (h (key entry) mod cap) = i)"

text \<open>
  The bucket array of an initialised map: it is not NULL, it has \<open>capacity\<close> chains,
  \<open>capacity \<ge> 1\<close>, and every entry is in the chain of its hash.
\<close>

definition buckets_ok :: "HashMap \<Rightarrow> bool" where
  "buckets_ok m \<longleftrightarrow>
     (case buckets m of
        None \<Rightarrow> False
      | Some bs \<Rightarrow>
          1 \<le> capacity m \<and> length bs = unat (capacity m) \<and>
          chains_ok (hash_func m) (capacity m) bs)"

text \<open>The structural invariant: a well-formed bucket array, and \<open>size\<close> counts the entries.\<close>

definition hashmap_inv :: "HashMap \<Rightarrow> bool" where
  "hashmap_inv m \<longleftrightarrow> buckets_ok m \<and> unat (size_m m) = length (entries m)"

text \<open>
  Two keys are the same for the map when they have the same size and the equality function
  accepts them (\<open>key_matches eq k entry\<close> is \<open>same_key eq (key entry) k\<close>). The strategy
  functions are lawful when this is an equivalence and keys that are the same have the same
  hash. \<open>default_hash\<close> with \<open>default_eq\<close> is lawful.
\<close>

definition same_key :: "eq_func_t \<Rightarrow> bytes \<Rightarrow> bytes \<Rightarrow> bool" where
  "same_key eq a b \<longleftrightarrow> length a = length b \<and> eq a b"

definition lawful :: "hash_func_t \<Rightarrow> eq_func_t \<Rightarrow> bool" where
  "lawful h eq \<longleftrightarrow>
     (\<forall>a. eq a a) \<and>
     (\<forall>a b. same_key eq a b \<longrightarrow> same_key eq b a) \<and>
     (\<forall>a b c. same_key eq a b \<longrightarrow> same_key eq b c \<longrightarrow> same_key eq a c) \<and>
     (\<forall>a b. same_key eq a b \<longrightarrow> h a = h b)"

text \<open>No two entries hold the same key.\<close>

definition keys_unique :: "eq_func_t \<Rightarrow> bytes list \<Rightarrow> bool" where
  "keys_unique eq ks \<longleftrightarrow>
     distinct ks \<and> (\<forall>a \<in> set ks. \<forall>b \<in> set ks. same_key eq a b \<longrightarrow> a = b)"

text \<open>
  A well-formed map: what init and the operations maintain besides the count of the
  entries, for lawful strategy functions.
\<close>

definition hashmap_wf :: "HashMap \<Rightarrow> bool" where
  "hashmap_wf m \<longleftrightarrow>
     buckets_ok m \<and> keys_unique (eq_func m) (map key (entries m)) \<and>
     lawful (hash_func m) (eq_func m)"

definition same_funcs :: "HashMap \<Rightarrow> HashMap \<Rightarrow> bool" where
  "same_funcs m m' \<longleftrightarrow>
     hash_func m' = hash_func m \<and> eq_func m' = eq_func m \<and> load_factor m' = load_factor m"

text \<open>The map has an entry for the key \<open>k\<close> whose value pointer is \<open>nv\<close>.\<close>

definition stored :: "HashMap \<Rightarrow> bytes \<Rightarrow> bytes option \<Rightarrow> bool" where
  "stored m k nv \<longleftrightarrow> (\<exists>e \<in> set (entries m). key_matches (eq_func m) k e \<and> val e = nv)"


section \<open>Sequences of calls\<close>

text \<open>
  A caller's calls between an insert and a later get: inserts, removes and resizes, run
  one after the other on the same map and the same heap.
\<close>

datatype operation = Insert bytes bytes | Remove bytes | Resize size_t

fun apply_op :: "allocs \<Rightarrow> HashMap \<Rightarrow> operation \<Rightarrow> (HashMap \<times> allocs) outcome" where
  "apply_op al m (Insert k v) =
     (case hashmap_insert al (Some m) (Some k) v of
        Undefined_Behaviour \<Rightarrow> Undefined_Behaviour
      | Returns (r, None, al1) \<Rightarrow> Returns (m, al1)
      | Returns (r, Some m1, al1) \<Rightarrow> Returns (m1, al1))"
| "apply_op al m (Remove k) =
     (case hashmap_remove (Some m) (Some k) of
        Undefined_Behaviour \<Rightarrow> Undefined_Behaviour
      | Returns (r, None) \<Rightarrow> Returns (m, al)
      | Returns (r, Some m1) \<Rightarrow> Returns (m1, al))"
| "apply_op al m (Resize new_capacity) =
     (case hashmap_resize al m new_capacity of
        Undefined_Behaviour \<Rightarrow> Undefined_Behaviour
      | Returns (r, m1, al1) \<Rightarrow> Returns (m1, al1))"

fun run_ops :: "allocs \<Rightarrow> HashMap \<Rightarrow> operation list \<Rightarrow> (HashMap \<times> allocs) outcome" where
  "run_ops al m [] = Returns (m, al)"
| "run_ops al m (op # ops) =
     (case apply_op al m op of
        Undefined_Behaviour \<Rightarrow> Undefined_Behaviour
      | Returns (m1, al1) \<Rightarrow> run_ops al1 m1 ops)"

text \<open>An insert or a remove is for the key \<open>k\<close> when its key is the same as \<open>k\<close>.\<close>

fun touches :: "eq_func_t \<Rightarrow> bytes \<Rightarrow> operation \<Rightarrow> bool" where
  "touches eq k (Insert k' v) = same_key eq k' k"
| "touches eq k (Remove k') = same_key eq k' k"
| "touches eq k (Resize new_capacity) = False"

section \<open>Example maps\<close>

text \<open>
  The memory of a \<open>HashMap\<close> before init, and maps with the default strategy functions
  and the default load factor: the one init makes for capacity 1, and the ones inserts,
  removes and resizes make of it.
\<close>

definition raw_map :: HashMap where
  "raw_map = \<lparr>buckets = None, capacity = 0, size_m = 0, hash_func = (\<lambda>k. 0),
               eq_func = (\<lambda>a b. False), load_factor = 0\<rparr>"

definition empty_map :: HashMap where
  "empty_map =
     \<lparr>buckets = Some [[]], capacity = 1, size_m = 0, hash_func = default_hash,
      eq_func = default_eq, load_factor = 3 / 4\<rparr>"

definition one_entry_map :: HashMap where
  "one_entry_map = \<lparr>buckets = Some [[\<lparr>key = [1], val = Some [9]\<rparr>]], capacity = 1, size_m = 1,
                     hash_func = default_hash, eq_func = default_eq, load_factor = 3 / 4\<rparr>"

definition two_entry_map :: HashMap where
  "two_entry_map =
     \<lparr>buckets = Some [[], [\<lparr>key = [2], val = Some [7]\<rparr>, \<lparr>key = [1], val = Some [9]\<rparr>]],
      capacity = 2, size_m = 2, hash_func = default_hash, eq_func = default_eq,
      load_factor = 3 / 4\<rparr>"

definition crowded_map :: HashMap where
  "crowded_map =
     \<lparr>buckets = Some [[\<lparr>key = [2], val = Some [7]\<rparr>, \<lparr>key = [1], val = Some [9]\<rparr>]],
      capacity = 1, size_m = 2, hash_func = default_hash, eq_func = default_eq,
      load_factor = 3 / 4\<rparr>"

definition rehashed_map :: HashMap where
  "rehashed_map =
     \<lparr>buckets = Some [[], [\<lparr>key = [1], val = Some [9]\<rparr>, \<lparr>key = [2], val = Some [7]\<rparr>]],
      capacity = 2, size_m = 2, hash_func = default_hash, eq_func = default_eq,
      load_factor = 3 / 4\<rparr>"

definition updated_map :: HashMap where
  "updated_map =
     \<lparr>buckets = Some [[], [\<lparr>key = [1], val = Some [5, 6]\<rparr>]], capacity = 2, size_m = 1,
      hash_func = default_hash, eq_func = default_eq, load_factor = 3 / 4\<rparr>"


definition last_map :: HashMap where
  "last_map =
     \<lparr>buckets = Some [[\<lparr>key = [2], val = Some [7]\<rparr>]], capacity = 1, size_m = 1,
      hash_func = default_hash, eq_func = default_eq, load_factor = 3 / 4\<rparr>"

text \<open>The map a failed update leaves: the value pointer of the entry is NULL.\<close>

definition lost_value_map :: HashMap where
  "lost_value_map =
     \<lparr>buckets = Some [[\<lparr>key = [1], val = None\<rparr>]], capacity = 1, size_m = 1,
      hash_func = default_hash, eq_func = default_eq, load_factor = 3 / 4\<rparr>"

section \<open>The bucket array\<close>

lemma index_in_range: "cap \<noteq> 0 \<Longrightarrow> unat (h mod cap) < unat (cap :: size_t)"
  by (simp add: unat_mod unat_gt_0)

lemma mset_concat_update:
  "i < length bs \<Longrightarrow> mset (concat (bs[i := c])) + mset (bs ! i) = mset (concat bs) + mset c"
proof (induction bs arbitrary: i)
  case Nil
  then show ?case by simp
next
  case (Cons b bs)
  show ?case
  proof (cases i)
    case 0
    then show ?thesis by simp
  next
    case (Suc j)
    with Cons.prems have "j < length bs" by simp
    from Cons.IH [OF this] Suc show ?thesis
      by (simp add: union_assoc)
  qed
qed

lemma mset_concat_cons_at:
  "i < length bs \<Longrightarrow> mset (concat (bs[i := e # bs ! i])) = add_mset e (mset (concat bs))"
  using mset_concat_update [of i bs "e # bs ! i"] by simp

lemma chains_ok_replicate: "chains_ok h cap (replicate n [])"
  by (simp add: chains_ok_def)

lemma chains_ok_update:
  assumes "chains_ok h cap bs" and "\<forall>entry \<in> set c. unat (h (key entry) mod cap) = i"
  shows "chains_ok h cap (bs[i := c])"
  unfolding chains_ok_def
proof (intro allI impI ballI)
  fix j entry
  assume j: "j < length (bs[i := c])" and e: "entry \<in> set (bs[i := c] ! j)"
  show "unat (h (key entry) mod cap) = j"
  proof (cases "j = i")
    case True
    with j e assms(2) show ?thesis by simp
  next
    case False
    with j e assms(1) show ?thesis by (simp add: chains_ok_def)
  qed
qed

lemma relink_length [simp]: "length (relink h cap e nb) = length nb"
  by (simp add: relink_def Let_def)

lemma relink_mset:
  "cap \<noteq> 0 \<Longrightarrow> length nb = unat cap
     \<Longrightarrow> mset (concat (relink h cap e nb)) = add_mset e (mset (concat nb))"
  by (simp add: relink_def Let_def mset_concat_cons_at index_in_range)

lemma relink_chains_ok:
  assumes "chains_ok h cap nb" and "cap \<noteq> 0" and "length nb = unat cap"
  shows "chains_ok h cap (relink h cap e nb)"
proof -
  have "unat (h (key e) mod cap) < length nb"
    using assms(2,3) by (simp add: index_in_range)
  with assms(1) have "\<forall>entry \<in> set (e # nb ! unat (h (key e) mod cap)).
      unat (h (key entry) mod cap) = unat (h (key e) mod cap)"
    by (simp add: chains_ok_def)
  with assms(1) show ?thesis
    unfolding relink_def Let_def by (rule chains_ok_update)
qed

lemma fold_relink:
  assumes "cap \<noteq> 0" and "length nb = unat cap" and "chains_ok h cap nb"
  shows "length (fold (relink h cap) es nb) = unat cap \<and>
         chains_ok h cap (fold (relink h cap) es nb) \<and>
         mset (concat (fold (relink h cap) es nb)) = mset es + mset (concat nb)"
  using assms(2,3)
proof (induction es arbitrary: nb)
  case Nil
  then show ?case by simp
next
  case (Cons e es)
  have "length (relink h cap e nb) = unat cap" using Cons.prems by simp
  moreover have "chains_ok h cap (relink h cap e nb)"
    using Cons.prems assms(1) by (simp add: relink_chains_ok)
  ultimately show ?case
    using Cons.IH [of "relink h cap e nb"] Cons.prems assms(1)
    by (simp add: relink_mset)
qed

lemma fold_fold_relink:
  assumes "cap \<noteq> 0" and "length nb = unat cap" and "chains_ok h cap nb"
  shows "length (fold (\<lambda>chain nb. fold (relink h cap) chain nb) bs nb) = unat cap \<and>
         chains_ok h cap (fold (\<lambda>chain nb. fold (relink h cap) chain nb) bs nb) \<and>
         mset (concat (fold (\<lambda>chain nb. fold (relink h cap) chain nb) bs nb))
           = mset (concat bs) + mset (concat nb)"
  using assms(2,3)
proof (induction bs arbitrary: nb)
  case Nil
  then show ?case by simp
next
  case (Cons b bs)
  from fold_relink [OF assms(1) Cons.prems, of b]
  show ?case
    using Cons.IH [of "fold (relink h cap) b nb"] by (simp add: union_assoc)
qed


lemma word_ge_1_iff: "1 \<le> (c :: size_t) \<longleftrightarrow> c \<noteq> 0"
  by (simp flip: not_less)

lemma buckets_okD:
  assumes "buckets_ok m"
  obtains bs where "buckets m = Some bs" and "capacity m \<noteq> 0"
    and "length bs = unat (capacity m)" and "chains_ok (hash_func m) (capacity m) bs"
    and "entries m = concat bs"
  using assms by (auto simp: buckets_ok_def entries_def word_ge_1_iff split: option.splits)

lemma old_chains_ok: "buckets_ok m \<Longrightarrow> old_chains m = Returns (the (buckets m))"
  by (erule buckets_okD) (simp add: old_chains_def)

lemma resize_fail:
  "next_alloc al = (False, al1) \<Longrightarrow> hashmap_resize al m nc = Returns (- 1, m, (if nc = 0 then al else al1))"
  by (simp add: hashmap_resize_def)

lemma resize_success:
  assumes "buckets_ok m" and "nc \<noteq> 0" and "next_alloc al = (True, al1)"
  obtains m' where "hashmap_resize al m nc = Returns (0, m', al1)"
    and "buckets_ok m'" and "capacity m' = nc" and "size_m m' = size_m m"
    and "mset (entries m') = mset (entries m)" and "same_funcs m m'"
proof -
  from assms(1) obtain bs where bs: "buckets m = Some bs" "entries m = concat bs"
    by (rule buckets_okD)
  let ?nb = "fold (\<lambda>chain nb. fold (relink (hash_func m) nc) chain nb) bs (replicate (unat nc) [])"
  let ?m' = "m\<lparr>buckets := Some ?nb, capacity := nc\<rparr>"
  have r: "hashmap_resize al m nc = Returns (0, ?m', al1)"
    using assms bs by (simp add: hashmap_resize_def old_chains_ok)
  have f: "length ?nb = unat nc \<and> chains_ok (hash_func m) nc ?nb \<and>
      mset (concat ?nb) = mset (concat bs) + mset (concat (replicate (unat nc) []))"
    by (rule fold_fold_relink) (simp_all add: assms(2) chains_ok_replicate)
  have "buckets_ok ?m'"
    using f assms(2) by (simp add: buckets_ok_def word_ge_1_iff)
  moreover have "mset (entries ?m') = mset (entries m)"
    using f bs by (simp add: entries_def)
  moreover have "same_funcs m ?m'" by (simp add: same_funcs_def)
  ultimately show thesis using r by (intro that [of ?m']) simp_all
qed

lemma resize_cases:
  assumes "buckets_ok m"
  obtains (unchanged) al1 where "hashmap_resize al m nc = Returns (- 1, m, al1)"
      and "nc = 0 \<and> al1 = al \<or> nc \<noteq> 0 \<and> next_alloc al = (False, al1)"
  | (resized) m' al1 where "hashmap_resize al m nc = Returns (0, m', al1)"
      and "nc \<noteq> 0" and "next_alloc al = (True, al1)"
      and "buckets_ok m'" and "capacity m' = nc" and "size_m m' = size_m m"
      and "mset (entries m') = mset (entries m)" and "same_funcs m m'"
proof (cases "nc = 0")
  case True
  then show thesis by (intro unchanged [of al]) (simp_all add: hashmap_resize_def)
next
  case False
  obtain ok al1 where al: "next_alloc al = (ok, al1)" by (cases "next_alloc al")
  show thesis
  proof (cases ok)
    case True
    with al have al': "next_alloc al = (True, al1)" by simp
    show thesis
      by (rule resize_success [OF assms False al']) (rule resized [OF _ False al'])
  next
    case nok: False
    with al False resize_fail [of al al1 m nc] show thesis
      by (intro unchanged [of al1]) simp_all
  qed
qed

lemma lawful_default: "lawful default_hash default_eq"
  unfolding lawful_def same_key_def default_eq_def by blast

lemma lawful_refl: "lawful h eq \<Longrightarrow> same_key eq a a"
  unfolding lawful_def same_key_def by blast

lemma lawful_sym: "lawful h eq \<Longrightarrow> same_key eq a b \<Longrightarrow> same_key eq b a"
  unfolding lawful_def by blast

lemma lawful_trans:
  "lawful h eq \<Longrightarrow> same_key eq a b \<Longrightarrow> same_key eq b c \<Longrightarrow> same_key eq a c"
  unfolding lawful_def by blast

lemma lawful_hash: "lawful h eq \<Longrightarrow> same_key eq a b \<Longrightarrow> h a = h b"
  unfolding lawful_def by blast

lemma key_matches_same_key: "key_matches eq k e \<longleftrightarrow> same_key eq (key e) k"
  by (simp add: key_matches_def same_key_def)

lemma match_in_bucket:
  assumes "buckets_ok m" and "lawful (hash_func m) (eq_func m)"
    and "buckets m = Some bs" and "e \<in> set (concat bs)" and "key_matches (eq_func m) k e"
  shows "e \<in> set (bs ! unat (hash_func m k mod capacity m))"
proof -
  from assms(4) obtain c where "c \<in> set bs" and ec: "e \<in> set c" by auto
  then obtain i where i: "i < length bs" and c: "c = bs ! i"
    by (auto simp: in_set_conv_nth)
  from assms(1,3) have "chains_ok (hash_func m) (capacity m) bs"
    by (simp add: buckets_ok_def)
  with i ec c have "unat (hash_func m (key e) mod capacity m) = i"
    by (simp add: chains_ok_def)
  moreover from assms(2,5) have "hash_func m (key e) = hash_func m k"
    by (auto simp: key_matches_same_key dest: lawful_hash)
  ultimately show ?thesis using ec c by simp
qed

lemma bucket_subset:
  assumes "buckets_ok m" and "buckets m = Some bs"
  shows "unat (hash_func m k mod capacity m) < length bs"
    and "set (bs ! unat (hash_func m k mod capacity m)) \<subseteq> set (concat bs)"
proof -
  from assms show i: "unat (hash_func m k mod capacity m) < length bs"
    by (simp add: buckets_ok_def word_ge_1_iff index_in_range)
  then show "set (bs ! unat (hash_func m k mod capacity m)) \<subseteq> set (concat bs)"
    using nth_mem [OF i] unfolding set_concat by blast
qed

lemma get_unfold:
  assumes "buckets_ok m" and "k \<noteq> []" and "buckets m = Some bs"
  shows "hashmap_get al (Some m) (Some k) ov os =
           (case find (key_matches (eq_func m) k) (bs ! unat (hash_func m k mod capacity m)) of
              None \<Rightarrow> Returns (0, No_Write, al)
            | Some entry \<Rightarrow>
                if ov \<and> os
                then (case next_alloc al of
                        (False, al1) \<Rightarrow> Returns (- 1, Wrote_Null, al1)
                      | (True, al1) \<Rightarrow>
                          (case val entry of
                             None \<Rightarrow> Undefined_Behaviour
                           | Some v \<Rightarrow> Returns (1, Wrote v, al1)))
                else Returns (1, No_Write, al))"
proof -
  have "capacity m \<noteq> 0" using assms(1) by (rule buckets_okD)
  moreover have "\<not> length bs \<le> unat (hash_func m k mod capacity m)"
    using bucket_subset(1) [OF assms(1,3), of k] by simp
  ultimately show ?thesis
    using assms(2,3) by (simp add: hashmap_get_def Let_def)
qed

lemma remove_unfold:
  assumes "buckets_ok m" and "k \<noteq> []" and "buckets m = Some bs"
  shows "hashmap_remove (Some m) (Some k) =
           (case chain_unlink (eq_func m) k (bs ! unat (hash_func m k mod capacity m)) of
              None \<Rightarrow> Returns (0, Some m)
            | Some chain \<Rightarrow>
                Returns (1, Some (m\<lparr>buckets := Some (bs[unat (hash_func m k mod capacity m) := chain]),
                                   size_m := size_m m - 1\<rparr>)))"
proof -
  have "capacity m \<noteq> 0" using assms(1) by (rule buckets_okD)
  moreover have "\<not> length bs \<le> unat (hash_func m k mod capacity m)"
    using bucket_subset(1) [OF assms(1,3), of k] by simp
  ultimately show ?thesis
    using assms(2,3) by (simp add: hashmap_remove_def Let_def)
qed

lemma find_None_absent: "\<forall>e \<in> set c. \<not> P e \<Longrightarrow> find P c = None"
  by (simp add: find_None_iff)

lemma chain_unlink_None: "\<forall>e \<in> set c. \<not> key_matches eq k e \<Longrightarrow> chain_unlink eq k c = None"
  by (induction c) auto

section \<open>Facts about the example maps\<close>

lemma one_entry_map_simps:
  "buckets one_entry_map = Some [[\<lparr>key = [1], val = Some [9]\<rparr>]]"
  "capacity one_entry_map = 1" "size_m one_entry_map = 1"
  "hash_func one_entry_map = default_hash" "eq_func one_entry_map = default_eq"
  "load_factor one_entry_map = 3 / 4"
  "entries one_entry_map = [\<lparr>key = [1], val = Some [9]\<rparr>]"
  by (simp_all add: one_entry_map_def entries_def)

lemma one_entry_map_ok: "buckets_ok one_entry_map"
  by (simp add: buckets_ok_def chains_ok_def one_entry_map_simps)

section \<open>The steps of insert\<close>

lemma create_entry_result:
  "fst (hashmap_create_entry al k v) = None \<or>
   fst (hashmap_create_entry al k v) = Some \<lparr>key = k, val = Some v\<rparr>"
  by (simp add: hashmap_create_entry_def split: prod.splits bool.splits)

lemma insert_place_cases:
  assumes "buckets_ok m"
  obtains
    (update_ok) bs al1 where "buckets m = Some bs"
      and "\<exists>e \<in> set (bs ! unat (hash_func m k mod capacity m)). key_matches (eq_func m) k e"
      and "next_alloc al = (True, al1)"
      and "insert_place al m k v =
             Returns (0, m\<lparr>buckets := Some (bs[unat (hash_func m k mod capacity m) :=
                        chain_set_value (eq_func m) k (Some v)
                          (bs ! unat (hash_func m k mod capacity m))])\<rparr>, al1)"
  | (update_fail) bs al1 where "buckets m = Some bs"
      and "\<exists>e \<in> set (bs ! unat (hash_func m k mod capacity m)). key_matches (eq_func m) k e"
      and "next_alloc al = (False, al1)"
      and "insert_place al m k v =
             Returns (- 1, m\<lparr>buckets := Some (bs[unat (hash_func m k mod capacity m) :=
                        chain_set_value (eq_func m) k None
                          (bs ! unat (hash_func m k mod capacity m))])\<rparr>, al1)"
  | (new_ok) bs al1 where "buckets m = Some bs"
      and "\<forall>e \<in> set (bs ! unat (hash_func m k mod capacity m)). \<not> key_matches (eq_func m) k e"
      and "hashmap_create_entry al k v = (Some \<lparr>key = k, val = Some v\<rparr>, al1)"
      and "insert_place al m k v =
             Returns (0, m\<lparr>buckets := Some (bs[unat (hash_func m k mod capacity m) :=
                        \<lparr>key = k, val = Some v\<rparr> # bs ! unat (hash_func m k mod capacity m)]),
                      size_m := size_m m + 1\<rparr>, al1)"
  | (new_fail) bs al1 where "buckets m = Some bs"
      and "\<forall>e \<in> set (bs ! unat (hash_func m k mod capacity m)). \<not> key_matches (eq_func m) k e"
      and "hashmap_create_entry al k v = (None, al1)"
      and "insert_place al m k v = Returns (- 1, m, al1)"
proof -
  from assms obtain bs where bs: "buckets m = Some bs" by (rule buckets_okD)
  let ?i = "unat (hash_func m k mod capacity m)"
  have i: "\<not> length bs \<le> ?i"
    using bucket_subset(1) [OF assms bs, of k] by simp
  show thesis
  proof (cases "\<exists>e \<in> set (bs ! ?i). key_matches (eq_func m) k e")
    case True
    obtain ok al1 where al: "next_alloc al = (ok, al1)" by (cases "next_alloc al")
    show thesis
    proof (cases ok)
      case True
      with al have "next_alloc al = (True, al1)" by simp
      with bs i \<open>\<exists>e \<in> set (bs ! ?i). key_matches (eq_func m) k e\<close> show thesis
        by (intro update_ok [of bs al1]) (simp_all add: insert_place_def Let_def)
    next
      case False
      with al have "next_alloc al = (False, al1)" by simp
      with bs i \<open>\<exists>e \<in> set (bs ! ?i). key_matches (eq_func m) k e\<close> show thesis
        by (intro update_fail [of bs al1]) (simp_all add: insert_place_def Let_def)
    qed
  next
    case False
    then have no: "\<forall>e \<in> set (bs ! ?i). \<not> key_matches (eq_func m) k e" by simp
    obtain r al1 where ce: "hashmap_create_entry al k v = (r, al1)"
      by (cases "hashmap_create_entry al k v")
    with create_entry_result [of al k v]
    have "r = None \<or> r = Some \<lparr>key = k, val = Some v\<rparr>" by simp
    then show thesis
    proof
      assume "r = None"
      with bs i False no ce show thesis
        by (intro new_fail [of bs al1]) (simp_all add: insert_place_def Let_def)
    next
      assume "r = Some \<lparr>key = k, val = Some v\<rparr>"
      with bs i False no ce show thesis
        by (intro new_ok [of bs al1]) (simp_all add: insert_place_def Let_def)
    qed
  qed
qed

lemma insert_grow_cases:
  assumes "buckets_ok m"
  obtains
    (kept) al1 where "insert_grow al m = Returns (m, al1)"
      and "\<not> load_factor m \<le> current_load m \<and> al1 = al \<or>
           load_factor m \<le> current_load m \<and> capacity m * 2 = 0 \<and> al1 = al \<or>
           load_factor m \<le> current_load m \<and> capacity m * 2 \<noteq> 0 \<and> next_alloc al = (False, al1)"
  | (grown) m' al1 where "insert_grow al m = Returns (m', al1)"
      and "load_factor m \<le> current_load m" and "capacity m * 2 \<noteq> 0"
      and "next_alloc al = (True, al1)"
      and "hashmap_resize al m (capacity m * 2) = Returns (0, m', al1)"
      and "buckets_ok m'" and "capacity m' = capacity m * 2" and "size_m m' = size_m m"
      and "mset (entries m') = mset (entries m)" and "same_funcs m m'"
proof (cases "load_factor m \<le> current_load m")
  case False
  then show thesis by (intro kept [of al]) (simp_all add: insert_grow_def)
next
  case True
  show thesis
  proof (rule resize_cases [OF assms, of al "capacity m * 2"])
    fix al1
    assume "hashmap_resize al m (capacity m * 2) = Returns (- 1, m, al1)"
      and "capacity m * 2 = 0 \<and> al1 = al \<or>
           capacity m * 2 \<noteq> 0 \<and> next_alloc al = (False, al1)"
    with True show thesis by (intro kept [of al1]) (auto simp: insert_grow_def)
  next
    fix m' al1
    assume "hashmap_resize al m (capacity m * 2) = Returns (0, m', al1)"
      and "capacity m * 2 \<noteq> 0" and "next_alloc al = (True, al1)"
      and "buckets_ok m'" and "capacity m' = capacity m * 2" and "size_m m' = size_m m"
      and "mset (entries m') = mset (entries m)" and "same_funcs m m'"
    with True show thesis by (intro grown [of m' al1]) (simp_all add: insert_grow_def)
  qed
qed

lemma insert_unfold:
  assumes "buckets_ok m" and "k \<noteq> []"
  shows "hashmap_insert al (Some m) (Some k) v =
           (case insert_grow al m of
              Undefined_Behaviour \<Rightarrow> Undefined_Behaviour
            | Returns (m1, al1) \<Rightarrow>
                (case insert_place al1 m1 k v of
                   Undefined_Behaviour \<Rightarrow> Undefined_Behaviour
                 | Returns (r, m2, al2) \<Rightarrow> Returns (r, Some m2, al2)))"
proof -
  have "capacity m \<noteq> 0" using assms(1) by (rule buckets_okD)
  then show ?thesis using assms(2) by (simp add: hashmap_insert_def)
qed


section \<open>Chains\<close>

lemma length_chain_set_value [simp]: "length (chain_set_value eq k nv c) = length c"
  by (induction c) simp_all

lemma map_key_chain_set_value [simp]: "map key (chain_set_value eq k nv c) = map key c"
  by (induction c) simp_all

lemma chain_set_value_keeps:
  "e \<in> set c \<Longrightarrow> \<not> key_matches eq k e \<Longrightarrow> e \<in> set (chain_set_value eq k nv c)"
  by (induction c) auto

lemma chain_set_value_sets:
  "\<exists>e \<in> set c. key_matches eq k e
     \<Longrightarrow> \<exists>e' \<in> set (chain_set_value eq k nv c). key_matches eq k e' \<and> val e' = nv"
  by (induction c) (auto simp: key_matches_def)

lemma chain_unlink_Some:
  "chain_unlink eq k c = Some c'
     \<Longrightarrow> \<exists>e. key_matches eq k e \<and> mset c = add_mset e (mset c')"
  by (induction c arbitrary: c') (auto split: if_splits)

lemma chain_unlink_NoneD:
  "chain_unlink eq k c = None \<Longrightarrow> \<forall>e \<in> set c. \<not> key_matches eq k e"
  by (induction c) (auto split: if_splits)

section \<open>Updates of one bucket\<close>

lemma buckets_ok_size_m [simp]: "buckets_ok (m\<lparr>size_m := s\<rparr>) = buckets_ok m"
  by (simp add: buckets_ok_def split: option.splits)

lemma entries_size_m [simp]: "entries (m\<lparr>size_m := s\<rparr>) = entries m"
  by (simp add: entries_def)

lemma entries_buckets [simp]: "entries (m\<lparr>buckets := Some bs\<rparr>) = concat bs"
  by (simp add: entries_def)

lemma same_funcs_updates [simp]:
  "same_funcs m (m\<lparr>buckets := b\<rparr>)" "same_funcs m (m\<lparr>buckets := b, size_m := s\<rparr>)"
  "same_funcs m m"
  by (simp_all add: same_funcs_def)

lemma buckets_ok_update:
  assumes "buckets_ok m" and "buckets m = Some bs"
    and "\<forall>e \<in> set c. unat (hash_func m (key e) mod capacity m) = i"
  shows "buckets_ok (m\<lparr>buckets := Some (bs[i := c])\<rparr>)"
proof -
  from assms(1,2) have "chains_ok (hash_func m) (capacity m) bs"
    by (simp add: buckets_ok_def)
  then have "chains_ok (hash_func m) (capacity m) (bs[i := c])"
    using assms(3) by (rule chains_ok_update)
  with assms(1,2) show ?thesis by (simp add: buckets_ok_def)
qed

lemma bucket_keys_hash:
  assumes "buckets_ok m" and "buckets m = Some bs" and "i < length bs"
  shows "\<forall>e \<in> set (bs ! i). unat (hash_func m (key e) mod capacity m) = i"
  using assms by (simp add: buckets_ok_def chains_ok_def)

lemma same_keys_hash:
  assumes "\<forall>e \<in> set c. unat (h (key e) mod cap) = i" and "map key c' = map key c"
  shows "\<forall>e \<in> set c'. unat (h (key e) mod cap) = i"
proof
  fix e assume "e \<in> set c'"
  then have "key e \<in> set (map key c')" by simp
  with assms(2) have "key e \<in> key ` set c" by simp
  with assms(1) show "unat (h (key e) mod cap) = i" by auto
qed

lemma map_concat_update_same:
  assumes "i < length bs" and "map f c = map f (bs ! i)"
  shows "map f (concat (bs[i := c])) = map f (concat bs)"
proof -
  have "map (map f) (bs[i := c]) = (map (map f) bs)[i := map f c]"
    by (simp add: map_update)
  also have "\<dots> = map (map f) bs"
    using assms by (simp add: list_update_same_conv)
  finally show ?thesis by (simp add: map_concat)
qed

lemma set_concat_update:
  assumes "i < length bs"
  shows "set (concat (bs[i := c])) \<union> set (bs ! i) = set (concat bs) \<union> set c"
    and "set c \<subseteq> set (concat (bs[i := c]))"
proof -
  have "set_mset (mset (concat (bs[i := c])) + mset (bs ! i)) = set_mset (mset (concat bs) + mset c)"
    using mset_concat_update [OF assms, of c] by simp
  then show "set (concat (bs[i := c])) \<union> set (bs ! i) = set (concat bs) \<union> set c"
    by simp
  have "bs[i := c] ! i \<in> set (bs[i := c])"
    using assms by (intro nth_mem) simp
  then have "c \<in> set (bs[i := c])" using assms by simp
  then show "set c \<subseteq> set (concat (bs[i := c]))"
    unfolding set_concat by blast
qed

lemma concat_update_keeps:
  assumes "i < length bs" and "e \<in> set (concat bs)" and "e \<in> set (bs ! i) \<longrightarrow> e \<in> set c"
  shows "e \<in> set (concat (bs[i := c]))"
  using set_concat_update [OF assms(1), of c] assms(2,3) by blast

section \<open>The effect of the placing step\<close>

lemma insert_place_effect:
  assumes "buckets_ok m" and "insert_place al m k v = Returns (r, m', al')"
  obtains
    (updated) nv where "r = 0 \<and> nv = Some v \<and> next_alloc al = (True, al') \<or>
                        r = - 1 \<and> nv = None \<and> next_alloc al = (False, al')"
      and "\<exists>e \<in> set (entries m). key_matches (eq_func m) k e"
      and "buckets_ok m'" and "same_funcs m m'" and "capacity m' = capacity m"
      and "size_m m' = size_m m" and "map key (entries m') = map key (entries m)"
      and "\<forall>e \<in> set (entries m). \<not> key_matches (eq_func m) k e \<longrightarrow> e \<in> set (entries m')"
      and "\<exists>e' \<in> set (entries m'). key_matches (eq_func m) k e' \<and> val e' = nv"
  | (added) bs where "r = 0" and "buckets m = Some bs"
      and "\<forall>e \<in> set (bs ! unat (hash_func m k mod capacity m)). \<not> key_matches (eq_func m) k e"
      and "hashmap_create_entry al k v = (Some \<lparr>key = k, val = Some v\<rparr>, al')"
      and "buckets_ok m'" and "same_funcs m m'" and "capacity m' = capacity m"
      and "size_m m' = size_m m + 1"
      and "mset (entries m') = add_mset \<lparr>key = k, val = Some v\<rparr> (mset (entries m))"
  | (refused) bs where "r = - 1" and "m' = m" and "buckets m = Some bs"
      and "\<forall>e \<in> set (bs ! unat (hash_func m k mod capacity m)). \<not> key_matches (eq_func m) k e"
      and "hashmap_create_entry al k v = (None, al')"
proof -
  let ?i = "unat (hash_func m k mod capacity m)"
  have upd: thesis
    if bs: "buckets m = Some bs"
      and ex: "\<exists>e \<in> set (bs ! ?i). key_matches (eq_func m) k e"
      and res: "r = 0 \<and> nv = Some v \<and> next_alloc al = (True, al') \<or>
                r = - 1 \<and> nv = None \<and> next_alloc al = (False, al')"
      and m': "m' = m\<lparr>buckets := Some (bs[?i := chain_set_value (eq_func m) k nv (bs ! ?i)])\<rparr>"
    for bs nv
  proof -
    let ?c = "chain_set_value (eq_func m) k nv (bs ! ?i)"
    have i: "?i < length bs" by (rule bucket_subset(1) [OF assms(1) bs])
    have en: "entries m = concat bs" using bs by (simp add: entries_def)
    have sub: "set (bs ! ?i) \<subseteq> set (concat bs)" by (rule bucket_subset(2) [OF assms(1) bs])
    have "\<forall>e \<in> set ?c. unat (hash_func m (key e) mod capacity m) = ?i"
      by (rule same_keys_hash [OF bucket_keys_hash [OF assms(1) bs i]]) simp
    then have ok: "buckets_ok m'"
      unfolding m' by (rule buckets_ok_update [OF assms(1) bs])
    have keys: "map key (entries m') = map key (entries m)"
      unfolding m' using i en by (simp add: map_concat_update_same)
    have keeps: "\<forall>e \<in> set (entries m). \<not> key_matches (eq_func m) k e \<longrightarrow> e \<in> set (entries m')"
    proof (intro ballI impI)
      fix e assume e: "e \<in> set (entries m)" and "\<not> key_matches (eq_func m) k e"
      then have "e \<in> set (bs ! ?i) \<longrightarrow> e \<in> set ?c"
        by (simp add: chain_set_value_keeps)
      with e en have "e \<in> set (concat (bs[?i := ?c]))"
        by (intro concat_update_keeps [OF i]) simp_all
      then show "e \<in> set (entries m')"
        unfolding m' by simp
    qed
    from chain_set_value_sets [OF ex, of nv]
    obtain e' where "e' \<in> set ?c" and "key_matches (eq_func m) k e'" and "val e' = nv" by blast
    moreover have "set ?c \<subseteq> set (entries m')"
      unfolding m' using set_concat_update(2) [OF i, of ?c] by simp
    ultimately have new: "\<exists>e' \<in> set (entries m'). key_matches (eq_func m) k e' \<and> val e' = nv"
      by blast
    from ex sub en have "\<exists>e \<in> set (entries m). key_matches (eq_func m) k e" by auto
    then show thesis
      using res ok keys keeps new by (intro updated [of nv]) (simp_all add: m')
  qed
  show thesis
  proof (rule insert_place_cases [OF assms(1), of k al v])
    fix bs al1
    assume "buckets m = Some bs" and "\<exists>e \<in> set (bs ! ?i). key_matches (eq_func m) k e"
      and "next_alloc al = (True, al1)"
      and "insert_place al m k v =
             Returns (0, m\<lparr>buckets := Some (bs[?i := chain_set_value (eq_func m) k (Some v) (bs ! ?i)])\<rparr>, al1)"
    with assms(2) show thesis by (intro upd [of bs "Some v"]) simp_all
  next
    fix bs al1
    assume "buckets m = Some bs" and "\<exists>e \<in> set (bs ! ?i). key_matches (eq_func m) k e"
      and "next_alloc al = (False, al1)"
      and "insert_place al m k v =
             Returns (- 1, m\<lparr>buckets := Some (bs[?i := chain_set_value (eq_func m) k None (bs ! ?i)])\<rparr>, al1)"
    with assms(2) show thesis by (intro upd [of bs None]) simp_all
  next
    fix bs al1
    assume bs: "buckets m = Some bs"
      and no: "\<forall>e \<in> set (bs ! ?i). \<not> key_matches (eq_func m) k e"
      and ce: "hashmap_create_entry al k v = (Some \<lparr>key = k, val = Some v\<rparr>, al1)"
      and ip: "insert_place al m k v =
             Returns (0, m\<lparr>buckets := Some (bs[?i := \<lparr>key = k, val = Some v\<rparr> # bs ! ?i]),
                      size_m := size_m m + 1\<rparr>, al1)"
    have i: "?i < length bs" by (rule bucket_subset(1) [OF assms(1) bs])
    have en: "entries m = concat bs" using bs by (simp add: entries_def)
    from ip assms(2) have m': "m' = m\<lparr>buckets := Some (bs[?i := \<lparr>key = k, val = Some v\<rparr> # bs ! ?i]),
        size_m := size_m m + 1\<rparr>" and r: "r = 0" "al1 = al'" by simp_all
    have "\<forall>e \<in> set (\<lparr>key = k, val = Some v\<rparr> # bs ! ?i). unat (hash_func m (key e) mod capacity m) = ?i"
      using bucket_keys_hash [OF assms(1) bs i] by simp
    then have "buckets_ok (m\<lparr>buckets := Some (bs[?i := \<lparr>key = k, val = Some v\<rparr> # bs ! ?i])\<rparr>)"
      by (rule buckets_ok_update [OF assms(1) bs])
    then have ok: "buckets_ok m'" unfolding m' by simp
    have "mset (entries m') = add_mset \<lparr>key = k, val = Some v\<rparr> (mset (entries m))"
      unfolding m' using i en by (simp add: mset_concat_cons_at)
    with bs no ce r ok show thesis
      by (intro added [of bs]) (simp_all add: m')
  next
    fix bs al1
    assume "buckets m = Some bs"
      and "\<forall>e \<in> set (bs ! ?i). \<not> key_matches (eq_func m) k e"
      and "hashmap_create_entry al k v = (None, al1)"
      and "insert_place al m k v = Returns (- 1, m, al1)"
    with assms(2) show thesis by (intro refused [of bs]) simp_all
  qed
qed


section \<open>The effect of the growth step and of remove\<close>

lemma insert_grow_effect:
  assumes "buckets_ok m"
  obtains m1 al1 where "insert_grow al m = Returns (m1, al1)"
    and "buckets_ok m1" and "size_m m1 = size_m m" and "same_funcs m m1"
    and "mset (entries m1) = mset (entries m)"
    and "m1 = m \<or> hashmap_resize al m (capacity m * 2) = Returns (0, m1, al1)"
proof (rule insert_grow_cases [OF assms, of al])
  fix al1
  assume "insert_grow al m = Returns (m, al1)"
  with assms show thesis by (intro that [of m al1]) simp_all
next
  fix m' al1
  assume "insert_grow al m = Returns (m', al1)"
    and "hashmap_resize al m (capacity m * 2) = Returns (0, m', al1)"
    and "buckets_ok m'" and "size_m m' = size_m m"
    and "mset (entries m') = mset (entries m)" and "same_funcs m m'"
  then show thesis by (intro that [of m' al1]) simp_all
qed

lemma remove_effect:
  assumes "buckets_ok m" and "k \<noteq> []"
  obtains
    (absent) bs where "hashmap_remove (Some m) (Some k) = Returns (0, Some m)"
      and "buckets m = Some bs"
      and "\<forall>e \<in> set (bs ! unat (hash_func m k mod capacity m)). \<not> key_matches (eq_func m) k e"
  | (removed) m' e0 where "hashmap_remove (Some m) (Some k) = Returns (1, Some m')"
      and "buckets_ok m'" and "same_funcs m m'" and "capacity m' = capacity m"
      and "size_m m' = size_m m - 1" and "key_matches (eq_func m) k e0"
      and "mset (entries m) = add_mset e0 (mset (entries m'))"
proof -
  from assms(1) obtain bs where bs: "buckets m = Some bs" and en: "entries m = concat bs"
    by (rule buckets_okD)
  let ?i = "unat (hash_func m k mod capacity m)"
  have i: "?i < length bs" by (rule bucket_subset(1) [OF assms(1) bs])
  show thesis
  proof (cases "chain_unlink (eq_func m) k (bs ! ?i)")
    case None
    with bs chain_unlink_NoneD [OF None] show thesis
      by (intro absent [of bs]) (simp_all add: remove_unfold [OF assms bs])
  next
    case (Some c)
    let ?m' = "m\<lparr>buckets := Some (bs[?i := c]), size_m := size_m m - 1\<rparr>"
    from chain_unlink_Some [OF Some]
    obtain e0 where e0: "key_matches (eq_func m) k e0" and c: "mset (bs ! ?i) = add_mset e0 (mset c)"
      by blast
    have "set_mset (mset (bs ! ?i)) = set_mset (add_mset e0 (mset c))"
      by (simp only: c)
    then have "set c \<subseteq> set (bs ! ?i)" by auto
    with bucket_keys_hash [OF assms(1) bs i]
    have "\<forall>e \<in> set c. unat (hash_func m (key e) mod capacity m) = ?i" by blast
    then have "buckets_ok (m\<lparr>buckets := Some (bs[?i := c])\<rparr>)"
      by (rule buckets_ok_update [OF assms(1) bs])
    then have ok: "buckets_ok ?m'" by simp
    have "mset (concat (bs[?i := c])) + add_mset e0 (mset c) = mset (concat bs) + mset c"
      using mset_concat_update [OF i, of c] c by simp
    then have "add_mset e0 (mset (concat (bs[?i := c]))) = mset (concat bs)"
      by simp
    then have ms: "mset (entries m) = add_mset e0 (mset (entries ?m'))"
      using en by simp
    from Some ok e0 ms show thesis
      by (intro removed [of ?m' e0]) (simp_all add: remove_unfold [OF assms bs])
  qed
qed

lemma hashmap_inv_same:
  assumes "buckets_ok m'" and "size_m m' = size_m m" and "mset (entries m') = mset (entries m)"
    and "hashmap_inv m"
  shows "hashmap_inv m'"
proof -
  have "size (mset (entries m')) = size (mset (entries m))" by (simp only: assms(3))
  then have "length (entries m') = length (entries m)" by simp
  with assms show ?thesis by (simp add: hashmap_inv_def)
qed

lemma all_true_next:
  assumes "\<forall>ok \<in> set al. ok"
  obtains al1 where "next_alloc al = (True, al1)" and "\<forall>ok \<in> set al1. ok"
  using assms by (cases al) auto

lemma create_entry_all_true:
  assumes "\<forall>ok \<in> set al. ok"
  shows "fst (hashmap_create_entry al k v) = Some \<lparr>key = k, val = Some v\<rparr>"
proof -
  from assms obtain al1 where 1: "next_alloc al = (True, al1)" "\<forall>ok \<in> set al1. ok"
    by (rule all_true_next)
  then obtain al2 where 2: "next_alloc al1 = (True, al2)" "\<forall>ok \<in> set al2. ok"
    by (auto elim: all_true_next)
  then obtain al3 where 3: "next_alloc al2 = (True, al3)"
    by (auto elim: all_true_next)
  from 1 2 3 show ?thesis by (simp add: hashmap_create_entry_def)
qed

lemma word_succ_neq_0: "(s :: size_t) \<noteq> - 1 \<Longrightarrow> unat (s + 1) = Suc (unat s)"
  by (metis add.commute add_eq_0_iff2 unatSuc)

lemma insert_place_returns:
  assumes "buckets_ok m"
  shows "\<exists>r m' al'. insert_place al m k v = Returns (r, m', al')"
  by (rule insert_place_cases [OF assms, of k al v]) blast+

lemma to_float_0 [simp]: "to_float 0 = 0"
  by (simp add: to_float_def)

lemma to_float_1 [simp]: "to_float 1 = 1"
  by code_simp

lemma to_float_2 [simp]: "to_float 2 = 2"
  by code_simp

lemma current_load_one_entry_map: "current_load one_entry_map = 1"
  by (simp add: current_load_def one_entry_map_simps)

lemma hash_mod_2: "default_hash [1] mod 2 = 1" "default_hash [2] mod 2 = 1"
  by code_simp+

lemma one_entry_map_inv: "hashmap_inv one_entry_map"
  by (simp add: hashmap_inv_def one_entry_map_ok one_entry_map_simps)

lemma crowded_map_eq:
  "one_entry_map\<lparr>buckets := Some [[\<lparr>key = [2], val = Some [7]\<rparr>, \<lparr>key = [1], val = Some [9]\<rparr>]],
     size_m := 2\<rparr> = crowded_map"
  by (simp add: one_entry_map_def crowded_map_def)

lemma empty_map_eq:
  "one_entry_map\<lparr>buckets := Some [[]], size_m := 0\<rparr> = empty_map"
  by (simp add: one_entry_map_def empty_map_def)

lemma insert_fresh_grown:
  "hashmap_insert [] (Some one_entry_map) (Some [2]) [7] = Returns (0, Some two_entry_map, [])"
  by (simp add: hashmap_insert_def insert_grow_def insert_place_def hashmap_resize_def
      old_chains_def relink_def hash_mod_2 current_load_one_entry_map one_entry_map_simps
      hashmap_create_entry_def key_matches_def default_eq_def)
     (simp add: one_entry_map_def two_entry_map_def numeral_2_eq_2)

lemma insert_fresh_not_grown:
  "hashmap_insert [False] (Some one_entry_map) (Some [2]) [7] = Returns (0, Some crowded_map, [])"
  by (simp add: hashmap_insert_def insert_grow_def insert_place_def hashmap_resize_def
      current_load_one_entry_map one_entry_map_simps
      hashmap_create_entry_def key_matches_def default_eq_def crowded_map_eq)

lemma remove_present:
  "hashmap_remove (Some one_entry_map) (Some [1]) = Returns (1, Some empty_map)"
  by (simp add: hashmap_remove_def one_entry_map_simps key_matches_def default_eq_def
      empty_map_eq)

lemma resize_to_2:
  "hashmap_resize [] one_entry_map 2 =
     Returns (0, one_entry_map\<lparr>buckets := Some [[], [\<lparr>key = [1], val = Some [9]\<rparr>]], capacity := 2\<rparr>, [])"
  by (simp add: hashmap_resize_def old_chains_def relink_def hash_mod_2 one_entry_map_simps)
     (simp add: numeral_2_eq_2)

lemma init_capacity_1:
  "hashmap_init [] (Some raw_map) 1 None None 0 = (0, Some empty_map, [])"
  by (simp add: hashmap_init_def raw_map_def empty_map_def DEFAULT_LOAD_FACTOR_def)

section \<open>Unique keys\<close>

lemma keys_unique_mset:
  assumes "mset ks = mset ks'"
  shows "keys_unique eq ks \<longleftrightarrow> keys_unique eq ks'"
  using mset_eq_setD [OF assms] mset_eq_imp_distinct_iff [OF assms]
  by (simp add: keys_unique_def)

lemma keys_unique_entries_mset:
  assumes "mset es = mset es'"
  shows "keys_unique eq (map key es) \<longleftrightarrow> keys_unique eq (map key es')"
proof -
  have "mset (map key es) = mset (map key es')"
    using assms by (metis mset_map)
  then show ?thesis by (rule keys_unique_mset)
qed

lemma keys_unique_tail: "keys_unique eq (a # ks) \<Longrightarrow> keys_unique eq ks"
  by (simp add: keys_unique_def)

lemma keys_unique_Cons:
  assumes "lawful h eq" and "keys_unique eq ks" and "\<forall>b \<in> set ks. \<not> same_key eq b a"
  shows "keys_unique eq (a # ks)"
proof -
  have "a \<notin> set ks"
    using assms(3) lawful_refl [OF assms(1), of a] by blast
  moreover have "\<forall>b \<in> set ks. \<not> same_key eq a b"
    using assms(3) lawful_sym [OF assms(1)] by blast
  ultimately show ?thesis
    using assms(2,3) by (auto simp: keys_unique_def)
qed

lemma unique_match:
  assumes "keys_unique eq (map key es)" and "lawful h eq"
    and "e \<in> set es" and "e' \<in> set es"
    and "key_matches eq k e" and "key_matches eq k e'"
  shows "e = e'"
proof -
  from assms(5,6) have "same_key eq (key e) k" and "same_key eq (key e') k"
    by (simp_all add: key_matches_same_key)
  then have "same_key eq (key e) (key e')"
    using lawful_sym [OF assms(2)] lawful_trans [OF assms(2)] by blast
  with assms(1,3,4) have "key e = key e'"
    by (simp add: keys_unique_def)
  moreover from assms(1) have "inj_on key (set es)"
    by (simp add: keys_unique_def distinct_map)
  ultimately show ?thesis using assms(3,4) by (simp add: inj_on_def)
qed

lemma find_bucket_iff:
  assumes "buckets_ok m" and "keys_unique (eq_func m) (map key (entries m))"
    and "lawful (hash_func m) (eq_func m)" and "buckets m = Some bs"
  shows "find (key_matches (eq_func m) k) (bs ! unat (hash_func m k mod capacity m)) = Some e
           \<longleftrightarrow> e \<in> set (entries m) \<and> key_matches (eq_func m) k e"
proof
  let ?c = "bs ! unat (hash_func m k mod capacity m)"
  have en: "entries m = concat bs" using assms(4) by (simp add: entries_def)
  have sub: "set ?c \<subseteq> set (entries m)"
    using bucket_subset(2) [OF assms(1,4), of k] en by simp
  {
    assume "find (key_matches (eq_func m) k) ?c = Some e"
    then have "e \<in> set ?c" and "key_matches (eq_func m) k e"
      by (auto simp: find_Some_iff)
    with sub show "e \<in> set (entries m) \<and> key_matches (eq_func m) k e" by blast
  }
  {
    assume e: "e \<in> set (entries m) \<and> key_matches (eq_func m) k e"
    with en have "e \<in> set ?c"
      using match_in_bucket [OF assms(1,3,4), of e k] by simp
    with e have "find (key_matches (eq_func m) k) ?c \<noteq> None"
      by (auto simp: find_None_iff)
    then obtain e' where f: "find (key_matches (eq_func m) k) ?c = Some e'" by auto
    then have "e' \<in> set ?c" and "key_matches (eq_func m) k e'"
      by (auto simp: find_Some_iff)
    with sub e have "e = e'"
      by (intro unique_match [OF assms(2,3), of e e' k]) auto
    with f show "find (key_matches (eq_func m) k) ?c = Some e" by simp
  }
qed

lemma get_determined:
  assumes "buckets_ok m" and "keys_unique (eq_func m) (map key (entries m))"
    and "lawful (hash_func m) (eq_func m)"
    and "buckets_ok m'" and "keys_unique (eq_func m') (map key (entries m'))"
    and "same_funcs m m'" and "set (entries m') = set (entries m)"
  shows "hashmap_get al (Some m') key_data ov os = hashmap_get al (Some m) key_data ov os"
proof (cases "key_data = None \<or> key_data = Some []")
  case True
  then show ?thesis by (auto simp: hashmap_get_def)
next
  case False
  then obtain k where k: "key_data = Some k" "k \<noteq> []" by auto
  from assms(1) obtain bs where bs: "buckets m = Some bs" by (rule buckets_okD)
  from assms(4) obtain bs' where bs': "buckets m' = Some bs'" by (rule buckets_okD)
  from assms(6) have f: "eq_func m' = eq_func m" "hash_func m' = hash_func m"
    by (simp_all add: same_funcs_def)
  with assms(3) have law': "lawful (hash_func m') (eq_func m')" by simp
  let ?f = "find (key_matches (eq_func m) k) (bs ! unat (hash_func m k mod capacity m))"
  let ?f' = "find (key_matches (eq_func m') k) (bs' ! unat (hash_func m' k mod capacity m'))"
  have "?f' = Some e \<longleftrightarrow> ?f = Some e" for e
    using find_bucket_iff [OF assms(1,2,3) bs, of k e]
      find_bucket_iff [OF assms(4,5) law' bs', of k e] assms(7) f by simp
  then have "?f' = ?f" by (cases ?f; cases ?f') auto
  then show ?thesis
    using k f by (simp add: get_unfold [OF assms(1) k(2) bs] get_unfold [OF assms(4) k(2) bs'])
qed

lemma get_stored:
  assumes "buckets_ok m" and "keys_unique (eq_func m) (map key (entries m))"
    and "lawful (hash_func m) (eq_func m)" and "k \<noteq> []" and "stored m k (Some v)"
  shows "hashmap_get al (Some m) (Some k) True True =
           (case next_alloc al of
              (False, al1) \<Rightarrow> Returns (- 1, Wrote_Null, al1)
            | (True, al1) \<Rightarrow> Returns (1, Wrote v, al1))"
proof -
  from assms(1) obtain bs where bs: "buckets m = Some bs" by (rule buckets_okD)
  from assms(5) obtain e where e: "e \<in> set (entries m)" "key_matches (eq_func m) k e"
    "val e = Some v" by (auto simp: stored_def)
  then have "find (key_matches (eq_func m) k) (bs ! unat (hash_func m k mod capacity m)) = Some e"
    using find_bucket_iff [OF assms(1,2,3) bs, of k e] by simp
  with e(3) show ?thesis
    by (simp add: get_unfold [OF assms(1,4) bs] split: prod.splits bool.splits)
qed

lemma crowded_map_simps:
  "buckets crowded_map = Some [[\<lparr>key = [2], val = Some [7]\<rparr>, \<lparr>key = [1], val = Some [9]\<rparr>]]"
  "capacity crowded_map = 1" "size_m crowded_map = 2"
  "hash_func crowded_map = default_hash" "eq_func crowded_map = default_eq"
  "load_factor crowded_map = 3 / 4"
  "entries crowded_map = [\<lparr>key = [2], val = Some [7]\<rparr>, \<lparr>key = [1], val = Some [9]\<rparr>]"
  by (simp_all add: crowded_map_def entries_def)

lemma crowded_map_ok: "buckets_ok crowded_map"
  by (simp add: buckets_ok_def chains_ok_def crowded_map_simps)

lemma crowded_map_unique: "keys_unique (eq_func crowded_map) (map key (entries crowded_map))"
  by (simp add: keys_unique_def crowded_map_simps same_key_def default_eq_def)

lemma crowded_map_lawful: "lawful (hash_func crowded_map) (eq_func crowded_map)"
  by (simp add: crowded_map_simps lawful_default)

lemma resize_crowded_map: "hashmap_resize [] crowded_map 2 = Returns (0, rehashed_map, [])"
  by (simp add: hashmap_resize_def old_chains_def relink_def hash_mod_2 crowded_map_simps)
     (simp add: crowded_map_def rehashed_map_def numeral_2_eq_2)

lemma get_crowded_map:
  "hashmap_get [] (Some crowded_map) (Some [1]) True True = Returns (1, Wrote [9], [])"
  "hashmap_get [] (Some crowded_map) (Some [2]) True True = Returns (1, Wrote [7], [])"
  "hashmap_get [] (Some crowded_map) (Some [3]) True True = Returns (0, No_Write, [])"
  by (simp_all add: hashmap_get_def crowded_map_simps key_matches_def default_eq_def)

section \<open>Well-formed maps\<close>

lemma hashmap_wfD:
  assumes "hashmap_wf m"
  shows "buckets_ok m" and "keys_unique (eq_func m) (map key (entries m))"
    and "lawful (hash_func m) (eq_func m)"
  using assms by (simp_all add: hashmap_wf_def)

lemma same_funcsD:
  assumes "same_funcs m m'"
  shows "hash_func m' = hash_func m" and "eq_func m' = eq_func m"
    and "load_factor m' = load_factor m"
  using assms by (simp_all add: same_funcs_def)

lemma same_funcs_trans: "same_funcs m m1 \<Longrightarrow> same_funcs m1 m2 \<Longrightarrow> same_funcs m m2"
  by (simp add: same_funcs_def)

lemma wf_same_entries:
  assumes "hashmap_wf m" and "buckets_ok m'" and "same_funcs m m'"
    and "mset (entries m') = mset (entries m)"
  shows "hashmap_wf m'"
  using assms keys_unique_entries_mset [OF assms(4), of "eq_func m"]
  by (simp add: hashmap_wf_def same_funcs_def)

lemma stored_mono:
  assumes "stored m k nv" and "same_funcs m m'"
    and "\<forall>e \<in> set (entries m). key_matches (eq_func m) k e \<longrightarrow> e \<in> set (entries m')"
  shows "stored m' k nv"
  using assms by (auto simp: stored_def same_funcs_def)

lemma other_key_no_match:
  assumes "lawful h eq" and "\<not> same_key eq k' k" and "key_matches eq k e"
  shows "\<not> key_matches eq k' e"
proof
  assume "key_matches eq k' e"
  with assms(3) have "same_key eq (key e) k'" and "same_key eq (key e) k"
    by (simp_all add: key_matches_same_key)
  then have "same_key eq k' k"
    using lawful_sym [OF assms(1)] lawful_trans [OF assms(1)] by blast
  with assms(2) show False by simp
qed

lemma no_match_anywhere:
  assumes "buckets_ok m" and "lawful (hash_func m) (eq_func m)" and "buckets m = Some bs"
    and "\<forall>e \<in> set (bs ! unat (hash_func m k mod capacity m)). \<not> key_matches (eq_func m) k e"
  shows "\<forall>e \<in> set (entries m). \<not> key_matches (eq_func m) k e"
proof (intro ballI notI)
  fix e assume "e \<in> set (entries m)" and km: "key_matches (eq_func m) k e"
  with assms(3) have "e \<in> set (concat bs)" by (simp add: entries_def)
  from match_in_bucket [OF assms(1,2,3) this km] assms(4) km show False by blast
qed

lemma insert_place_wf:
  assumes "hashmap_wf m" and "insert_place al m k v = Returns (r, m', al')"
  shows "hashmap_wf m' \<and> same_funcs m m' \<and> capacity m' = capacity m \<and>
         (r = 0 \<or> r = - 1) \<and>
         (r = 0 \<longrightarrow> stored m' k (Some v)) \<and>
         ((\<exists>e \<in> set (entries m). key_matches (eq_func m) k e) \<longrightarrow> size_m m' = size_m m) \<and>
         ((\<forall>e \<in> set (entries m). \<not> key_matches (eq_func m) k e) \<and> r \<noteq> 0 \<longrightarrow> m' = m) \<and>
         (\<forall>k0 nv. \<not> same_key (eq_func m) k k0 \<longrightarrow> stored m k0 nv \<longrightarrow> stored m' k0 nv)"
proof -
  note wf = hashmap_wfD [OF assms(1)]
  show ?thesis
  proof (rule insert_place_effect [OF wf(1) assms(2)])
    fix nv
    assume res: "r = 0 \<and> nv = Some v \<and> next_alloc al = (True, al') \<or>
                 r = - 1 \<and> nv = None \<and> next_alloc al = (False, al')"
      and ex: "\<exists>e \<in> set (entries m). key_matches (eq_func m) k e"
      and ok: "buckets_ok m'" and sf: "same_funcs m m'" and cap: "capacity m' = capacity m"
      and sz: "size_m m' = size_m m" and keys: "map key (entries m') = map key (entries m)"
      and keeps: "\<forall>e \<in> set (entries m). \<not> key_matches (eq_func m) k e \<longrightarrow> e \<in> set (entries m')"
      and new: "\<exists>e' \<in> set (entries m'). key_matches (eq_func m) k e' \<and> val e' = nv"
    have wf': "hashmap_wf m'"
      using wf ok keys same_funcsD [OF sf] by (simp add: hashmap_wf_def)
    have st: "stored m' k nv"
      using new same_funcsD [OF sf] by (simp add: stored_def)
    have others: "stored m' k0 nv0" if "\<not> same_key (eq_func m) k k0" and "stored m k0 nv0" for k0 nv0
    proof (rule stored_mono [OF that(2) sf], intro ballI impI)
      fix e assume e: "e \<in> set (entries m)" and "key_matches (eq_func m) k0 e"
      with that(1) have "\<not> key_matches (eq_func m) k e"
        by (intro other_key_no_match [OF wf(3)])
      with e keeps show "e \<in> set (entries m')" by blast
    qed
    from res wf' sf cap st sz ex others show ?thesis by auto
  next
    fix bs
    assume r: "r = 0" and bs: "buckets m = Some bs"
      and no: "\<forall>e \<in> set (bs ! unat (hash_func m k mod capacity m)). \<not> key_matches (eq_func m) k e"
      and ok: "buckets_ok m'" and sf: "same_funcs m m'" and cap: "capacity m' = capacity m"
      and ms: "mset (entries m') = add_mset \<lparr>key = k, val = Some v\<rparr> (mset (entries m))"
    from no_match_anywhere [OF wf(1,3) bs no]
    have none: "\<forall>e \<in> set (entries m). \<not> key_matches (eq_func m) k e" .
    then have "\<forall>b \<in> set (map key (entries m)). \<not> same_key (eq_func m) b k"
      by (simp add: key_matches_same_key)
    with wf(2,3) have "keys_unique (eq_func m) (k # map key (entries m))"
      by (intro keys_unique_Cons) simp_all
    moreover have km: "mset (map key (entries m')) = mset (k # map key (entries m))"
    proof -
      have "image_mset key (mset (entries m')) =
          image_mset key (add_mset \<lparr>key = k, val = Some v\<rparr> (mset (entries m)))"
        by (simp only: ms)
      then show ?thesis by simp
    qed
    ultimately have "keys_unique (eq_func m) (map key (entries m'))"
      using keys_unique_mset [OF km, of "eq_func m"] by blast
    with wf(3) ok same_funcsD [OF sf] have wf': "hashmap_wf m'"
      by (simp add: hashmap_wf_def)
    have set': "set (entries m') = insert \<lparr>key = k, val = Some v\<rparr> (set (entries m))"
    proof -
      have "set_mset (mset (entries m')) =
          set_mset (add_mset \<lparr>key = k, val = Some v\<rparr> (mset (entries m)))"
        by (simp only: ms)
      then show ?thesis by simp
    qed
    have "key_matches (eq_func m) k \<lparr>key = k, val = Some v\<rparr>"
      using lawful_refl [OF wf(3), of k] by (simp add: key_matches_same_key)
    with set' same_funcsD [OF sf] have st: "stored m' k (Some v)"
      by (auto simp: stored_def)
    have others: "stored m' k0 nv0" if "stored m k0 nv0" for k0 nv0
      by (rule stored_mono [OF that sf]) (simp add: set')
    from r wf' sf cap st none others show ?thesis by auto
  next
    fix bs
    assume "r = - 1" and "m' = m"
    with assms(1) show ?thesis by simp
  qed
qed

lemma insert_grow_wf:
  assumes "hashmap_wf m"
  obtains m1 al1 where "insert_grow al m = Returns (m1, al1)"
    and "hashmap_wf m1" and "same_funcs m m1" and "size_m m1 = size_m m"
    and "mset (entries m1) = mset (entries m)"
    and "m1 = m \<or> hashmap_resize al m (capacity m * 2) = Returns (0, m1, al1)"
proof (rule insert_grow_effect [OF hashmap_wfD(1) [OF assms], of al])
  fix m1 al1
  assume g: "insert_grow al m = Returns (m1, al1)"
    and ok: "buckets_ok m1" and sz: "size_m m1 = size_m m" and sf: "same_funcs m m1"
    and ms: "mset (entries m1) = mset (entries m)"
    and r: "m1 = m \<or> hashmap_resize al m (capacity m * 2) = Returns (0, m1, al1)"
  from wf_same_entries [OF assms ok sf ms] g sz sf ms r show thesis
    by (intro that [of m1 al1])
qed

lemma stored_same_set:
  assumes "set (entries m') = set (entries m)" and "same_funcs m m'"
  shows "stored m' k nv \<longleftrightarrow> stored m k nv"
  using assms by (simp add: stored_def same_funcs_def)

lemma insert_wf:
  assumes "hashmap_wf m" and "k \<noteq> []"
  obtains r m1 m' al1 al' where "insert_grow al m = Returns (m1, al1)"
    and "insert_place al1 m1 k v = Returns (r, m', al')"
    and "hashmap_insert al (Some m) (Some k) v = Returns (r, Some m', al')"
    and "hashmap_wf m1" and "same_funcs m m1" and "size_m m1 = size_m m"
    and "mset (entries m1) = mset (entries m)"
    and "m1 = m \<or> hashmap_resize al m (capacity m * 2) = Returns (0, m1, al1)"
proof (rule insert_grow_wf [OF assms(1), of al])
  fix m1 al1
  assume g: "insert_grow al m = Returns (m1, al1)" and wf1: "hashmap_wf m1"
    and rest: "same_funcs m m1" "size_m m1 = size_m m" "mset (entries m1) = mset (entries m)"
      "m1 = m \<or> hashmap_resize al m (capacity m * 2) = Returns (0, m1, al1)"
  obtain r m' al' where ip: "insert_place al1 m1 k v = Returns (r, m', al')"
    using insert_place_returns [OF hashmap_wfD(1) [OF wf1]] by blast
  have "hashmap_insert al (Some m) (Some k) v = Returns (r, Some m', al')"
    using g ip by (simp add: insert_unfold [OF hashmap_wfD(1) [OF assms(1)] assms(2)])
  with g ip wf1 rest show thesis by (intro that [of m1 al1 r m' al'])
qed

lemma stored_unique:
  assumes "hashmap_wf m" and "stored m k nv" and "stored m k nv'"
  shows "nv = nv'"
proof -
  from assms(2,3) obtain e e' where "e \<in> set (entries m)" "key_matches (eq_func m) k e"
    "val e = nv" "e' \<in> set (entries m)" "key_matches (eq_func m) k e'" "val e' = nv'"
    by (auto simp: stored_def)
  with unique_match [OF hashmap_wfD(2,3) [OF assms(1)], of e e' k] show ?thesis by simp
qed

lemma one_entry_map_wf: "hashmap_wf one_entry_map"
  by (simp add: hashmap_wf_def one_entry_map_ok one_entry_map_simps keys_unique_def
      lawful_default)

lemma insert_present:
  "hashmap_insert [] (Some one_entry_map) (Some [1]) [5, 6] = Returns (0, Some updated_map, [])"
  by (simp add: hashmap_insert_def insert_grow_def insert_place_def hashmap_resize_def
      old_chains_def relink_def hash_mod_2 current_load_one_entry_map one_entry_map_simps
      hashmap_create_entry_def key_matches_def default_eq_def)
     (simp add: one_entry_map_def updated_map_def numeral_2_eq_2)

section \<open>Calls for other keys\<close>

lemma apply_op_keeps:
  assumes "hashmap_wf m" and "stored m k nv" and "\<not> touches (eq_func m) k op"
  shows "\<exists>m' al'. apply_op al m op = Returns (m', al') \<and> hashmap_wf m' \<and> same_funcs m m' \<and>
           stored m' k nv"
proof (cases op)
  case (Insert k' v)
  show ?thesis
  proof (cases "k' = []")
    case True
    with Insert assms show ?thesis by (simp add: hashmap_insert_def)
  next
    case False
    show ?thesis
    proof (rule insert_wf [OF assms(1) False, of al v])
      fix r m1 m2 al1 al2
      assume ip: "insert_place al1 m1 k' v = Returns (r, m2, al2)"
        and ins: "hashmap_insert al (Some m) (Some k') v = Returns (r, Some m2, al2)"
        and wf1: "hashmap_wf m1" and sf: "same_funcs m m1"
        and ms: "mset (entries m1) = mset (entries m)"
      have st1: "stored m1 k nv"
        using assms(2) stored_same_set [OF mset_eq_setD [OF ms] sf] by simp
      from assms(3) Insert same_funcsD [OF sf]
      have "\<not> same_key (eq_func m1) k' k" by simp
      with insert_place_wf [OF wf1 ip] st1
      have "hashmap_wf m2" and "same_funcs m1 m2" and "stored m2 k nv" by blast+
      with ins Insert sf show ?thesis by (auto intro: same_funcs_trans)
    qed
  qed
next
  case (Remove k')
  note wf = hashmap_wfD [OF assms(1)]
  show ?thesis
  proof (cases "k' = []")
    case True
    with Remove assms show ?thesis by (simp add: hashmap_remove_def)
  next
    case False
    show ?thesis
    proof (rule remove_effect [OF wf(1) False])
      fix bs assume "hashmap_remove (Some m) (Some k') = Returns (0, Some m)"
      with Remove assms show ?thesis by simp
    next
      fix m' e0
      assume r: "hashmap_remove (Some m) (Some k') = Returns (1, Some m')"
        and ok: "buckets_ok m'" and sf: "same_funcs m m'"
        and e0: "key_matches (eq_func m) k' e0"
        and ms: "mset (entries m) = add_mset e0 (mset (entries m'))"
      have set: "set (entries m) = insert e0 (set (entries m'))"
      proof -
        have "set_mset (mset (entries m)) = set_mset (add_mset e0 (mset (entries m')))"
          by (simp only: ms)
        then show ?thesis by simp
      qed
      have "mset (map key (entries m)) = mset (key e0 # map key (entries m'))"
      proof -
        have "image_mset key (mset (entries m)) = image_mset key (add_mset e0 (mset (entries m')))"
          by (simp only: ms)
        then show ?thesis by simp
      qed
      from keys_unique_mset [OF this, of "eq_func m"] wf(2)
      have "keys_unique (eq_func m) (map key (entries m'))"
        by (auto dest: keys_unique_tail)
      with wf(3) ok same_funcsD [OF sf] have wf': "hashmap_wf m'"
        by (simp add: hashmap_wf_def)
      have st: "stored m' k nv"
      proof (rule stored_mono [OF assms(2) sf], intro ballI impI)
        fix e assume e: "e \<in> set (entries m)" and km: "key_matches (eq_func m) k e"
        from assms(3) Remove have "\<not> same_key (eq_func m) k' k" by simp
        from other_key_no_match [OF wf(3) this km] e0 have "e \<noteq> e0" by blast
        with e set show "e \<in> set (entries m')" by simp
      qed
      from r Remove wf' sf st show ?thesis by simp
    qed
  qed
next
  case (Resize nc)
  note wf = hashmap_wfD [OF assms(1)]
  show ?thesis
  proof (rule resize_cases [OF wf(1), of al nc])
    fix al1 assume "hashmap_resize al m nc = Returns (- 1, m, al1)"
    with Resize assms show ?thesis by simp
  next
    fix m' al1
    assume r: "hashmap_resize al m nc = Returns (0, m', al1)"
      and ok: "buckets_ok m'" and ms: "mset (entries m') = mset (entries m)"
      and sf: "same_funcs m m'"
    from wf_same_entries [OF assms(1) ok sf ms] stored_same_set [OF mset_eq_setD [OF ms] sf]
      assms(2) r Resize sf
    show ?thesis by simp
  qed
qed

lemma run_ops_keeps:
  assumes "hashmap_wf m" and "stored m k nv" and "\<forall>op \<in> set ops. \<not> touches (eq_func m) k op"
  shows "\<exists>m' al'. run_ops al m ops = Returns (m', al') \<and> hashmap_wf m' \<and> same_funcs m m' \<and>
           stored m' k nv"
  using assms
proof (induction ops arbitrary: al m)
  case Nil
  then show ?case by simp
next
  case (Cons op ops)
  from Cons.prems(3) have "\<not> touches (eq_func m) k op" by simp
  from apply_op_keeps [OF Cons.prems(1,2) this, of al]
  obtain m1 al1 where a: "apply_op al m op = Returns (m1, al1)" and wf1: "hashmap_wf m1"
    and sf: "same_funcs m m1" and st1: "stored m1 k nv" by blast
  from Cons.prems(3) same_funcsD [OF sf]
  have "\<forall>op \<in> set ops. \<not> touches (eq_func m1) k op" by simp
  from Cons.IH [OF wf1 st1 this, of al1]
  obtain m' al' where "run_ops al1 m1 ops = Returns (m', al')" and "hashmap_wf m'"
    and "same_funcs m1 m'" and "stored m' k nv" by blast
  with a sf show ?case by (auto intro: same_funcs_trans)
qed

lemma get_present_no_out:
  assumes "buckets_ok m" and "lawful (hash_func m) (eq_func m)" and "k \<noteq> []"
    and "\<exists>e \<in> set (entries m). key_matches (eq_func m) k e" and "\<not> (ov \<and> os)"
  shows "hashmap_get al (Some m) (Some k) ov os = Returns (1, No_Write, al)"
proof -
  from assms(1) obtain bs where bs: "buckets m = Some bs" "entries m = concat bs"
    by (rule buckets_okD)
  let ?c = "bs ! unat (hash_func m k mod capacity m)"
  from assms(4) bs obtain e where "e \<in> set ?c" and "key_matches (eq_func m) k e"
    using match_in_bucket [OF assms(1,2) bs(1)] by auto
  then have "find (key_matches (eq_func m) k) ?c \<noteq> None"
    by (auto simp: find_None_iff)
  then obtain e' where "find (key_matches (eq_func m) k) ?c = Some e'" by auto
  with assms(5) show ?thesis by (auto simp: get_unfold [OF assms(1,3) bs(1)])
qed

lemma hash_mod_4: "default_hash [1] mod 4 = 1" "default_hash [2] mod 4 = 3"
  by code_simp+

lemma two_entry_map_simps:
  "buckets two_entry_map = Some [[], [\<lparr>key = [2], val = Some [7]\<rparr>, \<lparr>key = [1], val = Some [9]\<rparr>]]"
  "capacity two_entry_map = 2" "size_m two_entry_map = 2"
  "hash_func two_entry_map = default_hash" "eq_func two_entry_map = default_eq"
  "load_factor two_entry_map = 3 / 4"
  by (simp_all add: two_entry_map_def)

lemma current_load_two_entry_map: "current_load two_entry_map = 1"
  by (simp add: current_load_def two_entry_map_simps)

lemma run_step_1:
  "apply_op [] two_entry_map (Insert [1] [8]) =
     Returns (two_entry_map\<lparr>buckets := Some [[], [\<lparr>key = [1], val = Some [8]\<rparr>], [],
                                            [\<lparr>key = [2], val = Some [7]\<rparr>]],
                            capacity := 4\<rparr>, [])"
  by (simp add: hashmap_insert_def insert_grow_def insert_place_def hashmap_resize_def
      old_chains_def relink_def hash_mod_4 current_load_two_entry_map two_entry_map_simps
      key_matches_def default_eq_def)
     (simp add: eval_nat_numeral)

lemma run_step_2:
  "apply_op [] (two_entry_map\<lparr>buckets := Some [[], [\<lparr>key = [1], val = Some [8]\<rparr>], [],
                                            [\<lparr>key = [2], val = Some [7]\<rparr>]],
                            capacity := 4\<rparr>) (Remove [1]) =
     Returns (two_entry_map\<lparr>buckets := Some [[], [], [], [\<lparr>key = [2], val = Some [7]\<rparr>]],
                            capacity := 4, size_m := 1\<rparr>, [])"
  by (simp add: hashmap_remove_def hash_mod_4 two_entry_map_simps key_matches_def default_eq_def)

lemma run_step_3:
  "apply_op [] (two_entry_map\<lparr>buckets := Some [[], [], [], [\<lparr>key = [2], val = Some [7]\<rparr>]],
                            capacity := 4, size_m := 1\<rparr>) (Resize 1) = Returns (last_map, [])"
  by (simp add: hashmap_resize_def old_chains_def relink_def two_entry_map_simps)
     (simp add: two_entry_map_def last_map_def)

lemma run_example:
  "run_ops [] two_entry_map [Insert [1] [8], Remove [1], Resize 1] = Returns (last_map, [])"
  by (simp add: run_step_1 run_step_2 run_step_3 del: apply_op.simps)

section \<open>Allocation failures in insert\<close>


text \<open>
  The update of an existing key frees the old value before it asks for the new buffer:
  when that request fails the entry is left with a NULL value, and a later get that
  copies the value is undefined.
\<close>

lemma update_failure_loses_value:
  "hashmap_insert [False, False] (Some one_entry_map) (Some [1]) [5] =
     Returns (- 1, Some lost_value_map, [])"
  "hashmap_get [] (Some lost_value_map) (Some [1]) True True = Undefined_Behaviour"
  by (simp_all add: hashmap_insert_def insert_grow_def insert_place_def hashmap_resize_def
      current_load_one_entry_map one_entry_map_simps hashmap_get_def
      key_matches_def default_eq_def lost_value_map_def)


section \<open>Occupancy\<close>









lemma get_absent:
  assumes "buckets_ok m" and "k \<noteq> []"
    and "\<forall>e \<in> set (entries m). \<not> key_matches (eq_func m) k e"
  shows "hashmap_get al (Some m) (Some k) ov os = Returns (0, No_Write, al)"
proof -
  from assms(1) obtain bs where bs: "buckets m = Some bs" "entries m = concat bs"
    by (rule buckets_okD)
  with assms(3) bucket_subset(2) [OF assms(1) bs(1), of k]
  have "\<forall>e \<in> set (bs ! unat (hash_func m k mod capacity m)). \<not> key_matches (eq_func m) k e"
    by auto
  then show ?thesis
    by (simp add: get_unfold [OF assms(1,2) bs(1)] find_None_absent)
qed


section \<open>The claims\<close>




text \<open>
  C2. On a well-formed map (chain invariant, unique keys, lawful strategy functions), after
  an insert of \<open>(k, v)\<close> that returns 0, any sequence of inserts and removes whose keys do
  not match \<open>k\<close> and of resizes, with any outcomes of their allocations, runs to its end,
  and a get of \<open>k\<close> on the map it leaves returns 1: with both out-pointers it writes a
  copy equal to \<open>v\<close> (it returns \<open>-1\<close> only when that copy cannot be allocated), with
  an out-pointer missing it writes nothing.
\<close>

theorem insert_then_get:
  assumes "hashmap_wf m" and "k \<noteq> []"
    and "hashmap_insert al (Some m) (Some k) v = Returns (0, Some m1, al1)"
    and "\<forall>op \<in> set ops. \<not> touches (eq_func m) k op"
  shows "\<exists>m2 al2. run_ops al1 m1 ops = Returns (m2, al2) \<and>
           hashmap_get al2 (Some m2) (Some k) True True =
             (case next_alloc al2 of
                (False, al3) \<Rightarrow> Returns (- 1, Wrote_Null, al3)
              | (True, al3) \<Rightarrow> Returns (1, Wrote v, al3)) \<and>
           hashmap_get al2 (Some m2) (Some k) False False = Returns (1, No_Write, al2)"
proof (rule insert_wf [OF assms(1,2), of al v])
  fix r m0 m' al0 al'
  assume ip: "insert_place al0 m0 k v = Returns (r, m', al')"
    and ins: "hashmap_insert al (Some m) (Some k) v = Returns (r, Some m', al')"
    and wf0: "hashmap_wf m0" and sf0: "same_funcs m m0"
  from ins assms(3) have eq: "r = 0" "m' = m1" "al' = al1" by simp_all
  from insert_place_wf [OF wf0 ip] eq
  have wf1: "hashmap_wf m1" and sf1: "same_funcs m0 m1" and st1: "stored m1 k (Some v)"
    by simp_all
  from assms(4) same_funcsD [OF sf0] same_funcsD [OF sf1]
  have "\<forall>op \<in> set ops. \<not> touches (eq_func m1) k op" by simp
  from run_ops_keeps [OF wf1 st1 this, of al1]
  obtain m2 al2 where run: "run_ops al1 m1 ops = Returns (m2, al2)" and wf2: "hashmap_wf m2"
    and st2: "stored m2 k (Some v)" by blast
  note wf = hashmap_wfD [OF wf2]
  have g: "hashmap_get al2 (Some m2) (Some k) True True =
      (case next_alloc al2 of
         (False, al3) \<Rightarrow> Returns (- 1, Wrote_Null, al3)
       | (True, al3) \<Rightarrow> Returns (1, Wrote v, al3))"
    by (rule get_stored [OF wf assms(2) st2])
  from st2 have "\<exists>e \<in> set (entries m2). key_matches (eq_func m2) k e"
    by (auto simp: stored_def)
  with get_present_no_out [OF wf(1,3) assms(2), of False False al2]
  have "hashmap_get al2 (Some m2) (Some k) False False = Returns (1, No_Write, al2)"
    by simp
  with run g show ?thesis by blast
qed

theorem insert_then_get_witness:
  "hashmap_insert [] (Some one_entry_map) (Some [2]) [7] = Returns (0, Some two_entry_map, []) \<and>
   run_ops [] two_entry_map [Insert [1] [8], Remove [1], Resize 1] = Returns (last_map, []) \<and>
   hashmap_get [] (Some last_map) (Some [2]) True True = Returns (1, Wrote [7], []) \<and>
   hashmap_get [] (Some last_map) (Some [2]) False False = Returns (1, No_Write, [])"
proof -
  have ne: "[2 :: byte] \<noteq> []" by simp
  have nt: "\<forall>op \<in> set [Insert [1] [8], Remove [1], Resize 1].
      \<not> touches (eq_func one_entry_map) [2] op"
    by (simp add: one_entry_map_simps same_key_def default_eq_def)
  from insert_then_get [OF one_entry_map_wf ne insert_fresh_grown nt]
    insert_fresh_grown run_example
  show ?thesis by simp
qed

text \<open>
  C3. A resize that succeeds (to any capacity \<open>\<ge> 1\<close>, asked for by insert or directly)
  keeps the multiset of entries, that is of (key, value) pairs: none is lost, none is
  duplicated. Size is unchanged, the capacity is the new one and every entry is in the chain
  of its hash under the new capacity. When the keys of the map are unique and the strategy
  functions are lawful, the keys stay unique and every get gives on the resized map what it
  gave on the map before, for every key, out-pointers and heap.
\<close>

theorem resize_preserves_content:
  assumes "buckets_ok m" and "hashmap_resize al m nc = Returns (0, m', al')"
  shows "mset (entries m') = mset (entries m) \<and> size_m m' = size_m m \<and>
         capacity m' = nc \<and> buckets_ok m' \<and>
         (keys_unique (eq_func m) (map key (entries m)) \<and> lawful (hash_func m) (eq_func m) \<longrightarrow>
            keys_unique (eq_func m') (map key (entries m')) \<and>
            (\<forall>al2 key_data ov os.
               hashmap_get al2 (Some m') key_data ov os = hashmap_get al2 (Some m) key_data ov os))"
proof (rule resize_cases [OF assms(1), of al nc])
  fix al1 assume "hashmap_resize al m nc = Returns (- 1, m, al1)"
  with assms(2) show ?thesis by simp
next
  fix m2 al1
  assume "hashmap_resize al m nc = Returns (0, m2, al1)"
    and r: "buckets_ok m2" "capacity m2 = nc" "size_m m2 = size_m m"
      "mset (entries m2) = mset (entries m)" "same_funcs m m2"
  with assms(2) have m2: "m2 = m'" by simp
  have u: "keys_unique (eq_func m') (map key (entries m'))"
    if "keys_unique (eq_func m) (map key (entries m))"
    using that r(4,5) keys_unique_entries_mset [of "entries m'" "entries m" "eq_func m"]
    by (simp add: same_funcs_def m2)
  have "hashmap_get al2 (Some m') key_data ov os = hashmap_get al2 (Some m) key_data ov os"
    if "keys_unique (eq_func m) (map key (entries m))" and "lawful (hash_func m) (eq_func m)"
    for al2 key_data ov os
    using assms(1) that r u [OF that(1)] mset_eq_setD [OF r(4)]
    by (intro get_determined) (simp_all add: m2)
  with r u show ?thesis by (simp add: m2)
qed

theorem resize_preserves_content_witness:
  "hashmap_resize [] crowded_map 2 = Returns (0, rehashed_map, []) \<and>
   mset (entries rehashed_map) = mset (entries crowded_map) \<and>
   size_m rehashed_map = 2 \<and> capacity rehashed_map = 2 \<and>
   hashmap_get [] (Some rehashed_map) (Some [1]) True True = Returns (1, Wrote [9], []) \<and>
   hashmap_get [] (Some rehashed_map) (Some [2]) True True = Returns (1, Wrote [7], []) \<and>
   hashmap_get [] (Some rehashed_map) (Some [3]) True True = Returns (0, No_Write, [])"
  using resize_preserves_content [OF crowded_map_ok resize_crowded_map]
    crowded_map_unique crowded_map_lawful get_crowded_map resize_crowded_map
  by (simp add: crowded_map_simps)

text \<open>
  C4. The structural invariant \<open>hashmap_inv\<close> of an initialised map: the bucket array has
  \<open>capacity\<close> chains and \<open>capacity \<ge> 1\<close>, \<open>size\<close> is the number of entries in all the
  chains, and every entry of chain \<open>i\<close> has a key whose hash modulo the capacity is \<open>i\<close>.
  A successful \<open>hashmap_init\<close> establishes it. Insert (with any key argument, any value and
  any outcome of its allocations), remove and resize (to any capacity, with any outcome of
  its allocation) return, and return a map that satisfies it when the map they were given
  does. For insert the map has fewer than \<open>2^64 - 1\<close> entries (\<open>size\<close> is not \<open>SIZE_MAX\<close>),
  as any map in a 64-bit address space has: \<open>size++\<close> would wrap otherwise. Get has a
  \<open>const\<close> map and returns no map: it has nothing to preserve.
\<close>

theorem structural_invariant_preserved:
  "(hashmap_init al hmap0 cap hf ef lf = (0, hmap1, al1) \<longrightarrow>
      (\<exists>m1. hmap1 = Some m1 \<and> hashmap_inv m1)) \<and>
   (hashmap_inv m \<and> size_m m \<noteq> - 1 \<longrightarrow>
      (\<exists>r m' al'. hashmap_insert al (Some m) key_data v = Returns (r, Some m', al') \<and>
         hashmap_inv m')) \<and>
   (hashmap_inv m \<longrightarrow>
      (\<exists>r m'. hashmap_remove (Some m) key_data = Returns (r, Some m') \<and> hashmap_inv m')) \<and>
   (hashmap_inv m \<longrightarrow>
      (\<exists>r m' al'. hashmap_resize al m nc = Returns (r, m', al') \<and> hashmap_inv m'))"
proof (intro conjI impI)
  assume "hashmap_init al hmap0 cap hf ef lf = (0, hmap1, al1)"
  then show "\<exists>m1. hmap1 = Some m1 \<and> hashmap_inv m1"
    by (cases hmap0; cases "next_alloc al"; cases "fst (next_alloc al)")
       (auto simp: hashmap_init_def Let_def hashmap_inv_def buckets_ok_def entries_def
          chains_ok_replicate word_ge_1_iff DEFAULT_INITIAL_CAPACITY_def)
next
  assume a: "hashmap_inv m \<and> size_m m \<noteq> - 1"
  then have ok: "buckets_ok m" and sz: "unat (size_m m) = length (entries m)"
    by (simp_all add: hashmap_inv_def)
  show "\<exists>r m' al'. hashmap_insert al (Some m) key_data v = Returns (r, Some m', al') \<and>
      hashmap_inv m'"
  proof (cases "key_data = None \<or> key_data = Some []")
    case True
    with a show ?thesis by (auto simp: hashmap_insert_def)
  next
    case False
    then obtain k where k: "key_data = Some k" "k \<noteq> []" by auto
    obtain m1 al1 where g: "insert_grow al m = Returns (m1, al1)"
      and ok1: "buckets_ok m1" and sz1: "size_m m1 = size_m m"
      and en1: "mset (entries m1) = mset (entries m)"
      by (rule insert_grow_effect [OF ok, of al])
    have inv1: "hashmap_inv m1"
      using ok1 sz1 en1 a by (intro hashmap_inv_same [of m1 m]) simp_all
    obtain r m2 al2 where ip: "insert_place al1 m1 k v = Returns (r, m2, al2)"
      using insert_place_returns [OF ok1] by blast
    have "hashmap_inv m2"
    proof (rule insert_place_effect [OF ok1 ip])
      fix nv
      assume "buckets_ok m2" and "size_m m2 = size_m m1"
        and "map key (entries m2) = map key (entries m1)"
      moreover from this have "length (entries m2) = length (entries m1)"
        by (metis length_map)
      ultimately show ?thesis using inv1 by (simp add: hashmap_inv_def)
    next
      fix bs
      assume ok2: "buckets_ok m2" and sz2: "size_m m2 = size_m m1 + 1"
        and "mset (entries m2) = add_mset \<lparr>key = k, val = Some v\<rparr> (mset (entries m1))"
      then have "size (mset (entries m2)) =
          size (add_mset \<lparr>key = k, val = Some v\<rparr> (mset (entries m1)))"
        by (simp only:)
      then have "length (entries m2) = Suc (length (entries m1))" by simp
      moreover have "unat (size_m m2) = Suc (unat (size_m m1))"
        using a sz1 sz2 by (simp add: word_succ_neq_0)
      ultimately show ?thesis using ok2 inv1 by (simp add: hashmap_inv_def)
    next
      assume "m2 = m1"
      with inv1 show ?thesis by simp
    qed
    with ip have "\<exists>r m2 al2. insert_place al1 m1 k v = Returns (r, m2, al2) \<and> hashmap_inv m2"
      by blast
    then show ?thesis
      using k g by (auto simp: insert_unfold [OF ok])
  qed
next
  assume inv: "hashmap_inv m"
  then have ok: "buckets_ok m" and sz: "unat (size_m m) = length (entries m)"
    by (simp_all add: hashmap_inv_def)
  show "\<exists>r m'. hashmap_remove (Some m) key_data = Returns (r, Some m') \<and> hashmap_inv m'"
  proof (cases "key_data = None \<or> key_data = Some []")
    case True
    with inv show ?thesis by (auto simp: hashmap_remove_def)
  next
    case False
    then obtain k where k: "key_data = Some k" "k \<noteq> []" by auto
    show ?thesis
    proof (rule remove_effect [OF ok k(2)])
      fix bs assume "hashmap_remove (Some m) (Some k) = Returns (0, Some m)"
      with inv k show ?thesis by auto
    next
      fix m' e0
      assume r: "hashmap_remove (Some m) (Some k) = Returns (1, Some m')"
        and ok': "buckets_ok m'" and sz': "size_m m' = size_m m - 1"
        and ms: "mset (entries m) = add_mset e0 (mset (entries m'))"
      have "size (mset (entries m)) = size (add_mset e0 (mset (entries m')))"
        by (simp only: ms)
      then have len: "length (entries m) = Suc (length (entries m'))" by simp
      with sz have "size_m m \<noteq> 0" by auto
      then have "unat (size_m m - 1) = unat (size_m m) - 1" by (rule unat_minus_one)
      with len sz sz' ok' have "hashmap_inv m'" by (simp add: hashmap_inv_def)
      with r k show ?thesis by auto
    qed
  qed
next
  assume inv: "hashmap_inv m"
  then have ok: "buckets_ok m" by (simp add: hashmap_inv_def)
  show "\<exists>r m' al'. hashmap_resize al m nc = Returns (r, m', al') \<and> hashmap_inv m'"
  proof (rule resize_cases [OF ok, of al nc])
    fix al1 assume "hashmap_resize al m nc = Returns (- 1, m, al1)"
    with inv show ?thesis by blast
  next
    fix m' al1
    assume "hashmap_resize al m nc = Returns (0, m', al1)"
      and "buckets_ok m'" and "size_m m' = size_m m" and "mset (entries m') = mset (entries m)"
    with inv hashmap_inv_same [of m' m] show ?thesis by blast
  qed
qed

theorem structural_invariant_preserved_witness:
  "hashmap_init [] (Some raw_map) 1 None None 0 = (0, Some empty_map, []) \<and>
   hashmap_inv empty_map \<and>
   hashmap_inv one_entry_map \<and> size_m one_entry_map \<noteq> - 1 \<and>
   hashmap_insert [] (Some one_entry_map) (Some [2]) [7] = Returns (0, Some two_entry_map, []) \<and>
   hashmap_inv two_entry_map \<and>
   hashmap_insert [False] (Some one_entry_map) (Some [2]) [7] = Returns (0, Some crowded_map, []) \<and>
   hashmap_inv crowded_map \<and>
   hashmap_remove (Some one_entry_map) (Some [1]) = Returns (1, Some empty_map) \<and>
   hashmap_resize [] one_entry_map 2 =
     Returns (0, one_entry_map\<lparr>buckets := Some [[], [\<lparr>key = [1], val = Some [9]\<rparr>]], capacity := 2\<rparr>, []) \<and>
   hashmap_inv (one_entry_map\<lparr>buckets := Some [[], [\<lparr>key = [1], val = Some [9]\<rparr>]], capacity := 2\<rparr>)"
proof -
  have sz: "size_m one_entry_map \<noteq> - 1" by (simp add: one_entry_map_simps)
  note inv = one_entry_map_inv
  note sip = structural_invariant_preserved
  from sip [of "[]" "Some raw_map" 1 None None 0 "Some empty_map" "[]"] init_capacity_1
  have 1: "hashmap_inv empty_map" by simp
  from sip [where al = "[]" and m = one_entry_map and key_data = "Some [2]" and v = "[7]"] inv sz insert_fresh_grown
  have 2: "hashmap_inv two_entry_map" by simp
  from sip [where al = "[False]" and m = one_entry_map and key_data = "Some [2]" and v = "[7]"] inv sz insert_fresh_not_grown
  have 3: "hashmap_inv crowded_map" by simp
  from sip [where al = "[]" and m = one_entry_map and nc = 2] inv resize_to_2
  have 4: "hashmap_inv (one_entry_map\<lparr>buckets := Some [[], [\<lparr>key = [1], val = Some [9]\<rparr>]], capacity := 2\<rparr>)"
    by simp
  from 1 2 3 4 inv sz init_capacity_1 insert_fresh_grown insert_fresh_not_grown remove_present
    resize_to_2
  show ?thesis by simp
qed

text \<open>
  C5. When the allocation of the new bucket array fails, \<open>hashmap_resize\<close> returns \<open>-1\<close>
  and the map it was given, field for field. When this happens in the growth step of an
  insert (the load test fires, the doubled capacity is not 0), the insert goes on with the
  map as it was: its result is that of the placing step on the unresized map. If the
  allocations that follow succeed, the insert returns 0 and the capacity is the old one.
\<close>

theorem growth_failure_is_not_fatal:
  assumes "next_alloc al = (False, al1)"
  shows "(nc \<noteq> 0 \<longrightarrow> hashmap_resize al m nc = Returns (- 1, m, al1)) \<and>
         (k \<noteq> [] \<and> load_factor m \<le> current_load m \<and> capacity m * 2 \<noteq> 0 \<longrightarrow>
            hashmap_insert al (Some m) (Some k) v =
              (case insert_place al1 m k v of
                 Undefined_Behaviour \<Rightarrow> Undefined_Behaviour
               | Returns (r, m2, al2) \<Rightarrow> Returns (r, Some m2, al2)) \<and>
            (buckets_ok m \<and> (\<forall>ok \<in> set al1. ok) \<longrightarrow>
               (\<exists>m2 al2. hashmap_insert al (Some m) (Some k) v = Returns (0, Some m2, al2) \<and>
                  capacity m2 = capacity m \<and> buckets_ok m2)))"
proof (intro conjI impI)
  assume "nc \<noteq> 0"
  with assms show "hashmap_resize al m nc = Returns (- 1, m, al1)"
    by (simp add: resize_fail)
next
  assume a: "k \<noteq> [] \<and> load_factor m \<le> current_load m \<and> capacity m * 2 \<noteq> 0"
  then have c: "capacity m \<noteq> 0" by auto
  from a assms have g: "insert_grow al m = Returns (m, al1)"
    by (simp add: insert_grow_def resize_fail)
  with a c show ins: "hashmap_insert al (Some m) (Some k) v =
      (case insert_place al1 m k v of
         Undefined_Behaviour \<Rightarrow> Undefined_Behaviour
       | Returns (r, m2, al2) \<Rightarrow> Returns (r, Some m2, al2))"
    by (simp add: hashmap_insert_def)
  assume b: "buckets_ok m \<and> (\<forall>ok \<in> set al1. ok)"
  then have ok: "buckets_ok m" by simp
  obtain r m2 al2 where ip: "insert_place al1 m k v = Returns (r, m2, al2)"
    using insert_place_returns [OF ok] by blast
  from b obtain al1' where n: "next_alloc al1 = (True, al1')" by (auto elim: all_true_next)
  have "r = 0 \<and> capacity m2 = capacity m \<and> buckets_ok m2"
  proof (rule insert_place_effect [OF ok ip])
    fix nv
    assume "r = 0 \<and> nv = Some v \<and> next_alloc al1 = (True, al2) \<or>
            r = - 1 \<and> nv = None \<and> next_alloc al1 = (False, al2)"
      and "buckets_ok m2" and "capacity m2 = capacity m"
    with n show ?thesis by auto
  next
    fix bs assume "r = 0" and "buckets_ok m2" and "capacity m2 = capacity m"
    then show ?thesis by simp
  next
    fix bs assume "hashmap_create_entry al1 k v = (None, al2)"
    moreover from b have "fst (hashmap_create_entry al1 k v) = Some \<lparr>key = k, val = Some v\<rparr>"
      by (intro create_entry_all_true) blast
    ultimately show ?thesis by simp
  qed
  with ins ip show "\<exists>m2 al2. hashmap_insert al (Some m) (Some k) v = Returns (0, Some m2, al2) \<and>
      capacity m2 = capacity m \<and> buckets_ok m2"
    by simp
qed

theorem growth_failure_is_not_fatal_witness:
  "next_alloc [False] = (False, []) \<and>
   hashmap_resize [False] one_entry_map 2 = Returns (- 1, one_entry_map, []) \<and>
   load_factor one_entry_map \<le> current_load one_entry_map \<and>
   capacity one_entry_map * 2 \<noteq> 0 \<and>
   hashmap_insert [False] (Some one_entry_map) (Some [2]) [7] = Returns (0, Some crowded_map, []) \<and>
   capacity crowded_map = capacity one_entry_map"
proof -
  have n: "next_alloc [False] = (False, [])" by simp
  have l: "load_factor one_entry_map \<le> current_load one_entry_map"
    by (simp add: current_load_one_entry_map one_entry_map_simps)
  have c: "capacity one_entry_map * 2 \<noteq> 0" by (simp add: one_entry_map_simps)
  from growth_failure_is_not_fatal [OF n, of 2 one_entry_map "[2]" "[7]"] l c one_entry_map_ok
    insert_fresh_not_grown
  show ?thesis by simp
qed

text \<open>
  C6. On a well-formed map (chain invariant, unique keys, lawful strategy functions) that
  has an entry for the key \<open>k\<close>, an insert of \<open>(k, v')\<close> that returns 0 leaves the size as
  it was and the map well formed; the entry for \<open>k\<close> then holds \<open>v'\<close> (the bytes and
  with them the length) and no other value is stored for \<open>k\<close>; a get of \<open>k\<close> with both
  out-pointers returns 1 and a copy of \<open>v'\<close> (or \<open>-1\<close> when the copy cannot be
  allocated).
\<close>

theorem update_existing_key:
  assumes "hashmap_wf m" and "k \<noteq> []"
    and "\<exists>e \<in> set (entries m). key_matches (eq_func m) k e"
    and "hashmap_insert al (Some m) (Some k) v' = Returns (0, Some m', al')"
  shows "size_m m' = size_m m \<and> hashmap_wf m' \<and> stored m' k (Some v') \<and>
         (\<forall>nv. stored m' k nv \<longrightarrow> nv = Some v') \<and>
         (\<forall>al2. hashmap_get al2 (Some m') (Some k) True True =
            (case next_alloc al2 of
               (False, al3) \<Rightarrow> Returns (- 1, Wrote_Null, al3)
             | (True, al3) \<Rightarrow> Returns (1, Wrote v', al3)))"
proof (rule insert_wf [OF assms(1,2), of al v'])
  fix r m1 m2 al1 al2
  assume ip: "insert_place al1 m1 k v' = Returns (r, m2, al2)"
    and ins: "hashmap_insert al (Some m) (Some k) v' = Returns (r, Some m2, al2)"
    and wf1: "hashmap_wf m1" and sf: "same_funcs m m1" and sz: "size_m m1 = size_m m"
    and ms: "mset (entries m1) = mset (entries m)"
  from ins assms(4) have eq: "r = 0" "m2 = m'" by simp_all
  from assms(3) mset_eq_setD [OF ms] same_funcsD [OF sf]
  have ex: "\<exists>e \<in> set (entries m1). key_matches (eq_func m1) k e" by simp
  from insert_place_wf [OF wf1 ip] eq ex sz
  have wf': "hashmap_wf m'" and st: "stored m' k (Some v')" and sz': "size_m m' = size_m m"
    by simp_all
  have "nv = Some v'" if "stored m' k nv" for nv
    using stored_unique [OF wf' that st] .
  moreover have "hashmap_get al2 (Some m') (Some k) True True =
      (case next_alloc al2 of
         (False, al3) \<Rightarrow> Returns (- 1, Wrote_Null, al3)
       | (True, al3) \<Rightarrow> Returns (1, Wrote v', al3))" for al2
    by (rule get_stored [OF hashmap_wfD [OF wf'] assms(2) st])
  ultimately show ?thesis using wf' st sz' by blast
qed

theorem update_existing_key_witness:
  "hashmap_insert [] (Some one_entry_map) (Some [1]) [5, 6] = Returns (0, Some updated_map, []) \<and>
   size_m updated_map = size_m one_entry_map \<and> stored updated_map [1] (Some [5, 6]) \<and>
   hashmap_get [] (Some updated_map) (Some [1]) True True = Returns (1, Wrote [5, 6], [])"
proof -
  have p: "\<exists>e \<in> set (entries one_entry_map). key_matches (eq_func one_entry_map) [1] e"
    by (simp add: one_entry_map_simps key_matches_def default_eq_def)
  have ne: "[1 :: byte] \<noteq> []" by simp
  from update_existing_key [OF one_entry_map_wf ne p insert_present] insert_present
  have "size_m updated_map = size_m one_entry_map \<and> stored updated_map [1] (Some [5, 6]) \<and>
     hashmap_get [] (Some updated_map) (Some [1]) True True =
       (case next_alloc [] of
          (False, al3) \<Rightarrow> Returns (- 1, Wrote_Null, al3)
        | (True, al3) \<Rightarrow> Returns (1, Wrote [5, 6], al3))"
    by blast
  with insert_present show ?thesis by simp
qed




text \<open>
  C8. \<open>hashmap_init\<close> on a non-NULL map: a capacity of 0 becomes the default 16, a load
  factor \<open>\<le> 0\<close> becomes the default 0.75 (\<open>3 / 4\<close>), a missing hasher becomes
  \<open>default_hash\<close> (the one-at-a-time hash) and a missing equality becomes \<open>default_eq\<close>
  (the byte-wise comparison); a hasher, an equality, a capacity and a load factor that are
  given are kept. When the bucket array is allocated the call returns 0 with \<open>capacity\<close>
  empty chains and size 0; when it cannot be allocated the call returns \<open>-1\<close> and the map
  is left without a bucket array (\<open>buckets\<close> is NULL), the state of a map that is not
  initialised.
\<close>

theorem init_defaults:
  assumes "hashmap_init al (Some m0) cap hf ef lf = (r, hmap, al')"
  shows "\<exists>m. hmap = Some m \<and>
           capacity m = (if cap = 0 then 16 else cap) \<and>
           load_factor m = (if lf \<le> 0 then 3 / 4 else lf) \<and>
           hash_func m = (case hf of None \<Rightarrow> default_hash | Some h \<Rightarrow> h) \<and>
           eq_func m = (case ef of None \<Rightarrow> default_eq | Some e \<Rightarrow> e) \<and>
           size_m m = 0 \<and>
           (if fst (next_alloc al)
            then r = 0 \<and> buckets m = Some (replicate (unat (capacity m)) [])
            else r = - 1 \<and> buckets m = None)"
  using assms
  by (cases "next_alloc al"; cases "fst (next_alloc al)")
     (auto simp: hashmap_init_def Let_def DEFAULT_INITIAL_CAPACITY_def DEFAULT_LOAD_FACTOR_def
           split: option.splits)

theorem init_defaults_witness:
  "\<exists>m. capacity m = 16 \<and> load_factor m = 3 / 4 \<and> hash_func m = default_hash \<and>
       eq_func m = default_eq \<and> size_m m = 0 \<and> buckets m = None \<and>
       hashmap_init [False] (Some raw_map) 0 None None 0 = (- 1, Some m, [])"
proof -
  obtain r hmap al' where h: "hashmap_init [False] (Some raw_map) 0 None None 0 = (r, hmap, al')"
    by (cases "hashmap_init [False] (Some raw_map) 0 None None 0")
  moreover have "al' = []" using h by (simp add: hashmap_init_def Let_def)
  ultimately show ?thesis using init_defaults [OF h] by auto
qed

text \<open>
  C9. Insert, get and remove called with a NULL map, a NULL key pointer or a key of length
  0 return \<open>-1\<close>; the map is as it was, nothing is allocated and get writes no output.
  On a map whose bucket array is well formed, get and remove of a key that no entry
  matches return 0 (not found), whatever the out-pointers and the heap, and leave the map
  as it was.
\<close>

theorem invalid_argument_or_not_found:
  "(hmap = None \<or> key_data = None \<or> key_data = Some [] \<longrightarrow>
      hashmap_insert al hmap key_data v = Returns (- 1, hmap, al) \<and>
      hashmap_get al hmap key_data ov os = Returns (- 1, No_Write, al) \<and>
      hashmap_remove hmap key_data = Returns (- 1, hmap)) \<and>
   (buckets_ok m \<and> k \<noteq> [] \<and> (\<forall>e \<in> set (entries m). \<not> key_matches (eq_func m) k e) \<longrightarrow>
      hashmap_get al (Some m) (Some k) ov os = Returns (0, No_Write, al) \<and>
      hashmap_remove (Some m) (Some k) = Returns (0, Some m))"
proof (intro conjI impI)
  assume "hmap = None \<or> key_data = None \<or> key_data = Some []"
  then show "hashmap_insert al hmap key_data v = Returns (- 1, hmap, al)"
    by (auto simp: hashmap_insert_def split: option.splits)
next
  assume "hmap = None \<or> key_data = None \<or> key_data = Some []"
  then show "hashmap_get al hmap key_data ov os = Returns (- 1, No_Write, al)"
    by (auto simp: hashmap_get_def split: option.splits)
next
  assume "hmap = None \<or> key_data = None \<or> key_data = Some []"
  then show "hashmap_remove hmap key_data = Returns (- 1, hmap)"
    by (auto simp: hashmap_remove_def split: option.splits)
next
  assume a: "buckets_ok m \<and> k \<noteq> [] \<and> (\<forall>e \<in> set (entries m). \<not> key_matches (eq_func m) k e)"
  then obtain bs where bs: "buckets m = Some bs" "entries m = concat bs"
    by (auto elim: buckets_okD)
  with a bucket_subset(2) [of m bs k]
  have no: "\<forall>e \<in> set (bs ! unat (hash_func m k mod capacity m)). \<not> key_matches (eq_func m) k e"
    by auto
  from a bs show "hashmap_get al (Some m) (Some k) ov os = Returns (0, No_Write, al)"
    by (simp add: get_unfold find_None_absent [OF no])
  from a bs show "hashmap_remove (Some m) (Some k) = Returns (0, Some m)"
    by (simp add: remove_unfold chain_unlink_None [OF no])
qed

theorem invalid_argument_or_not_found_witness:
  "hashmap_insert [] None (Some [1]) [2] = Returns (- 1, None, []) \<and>
   hashmap_get [] None (Some [1]) True True = Returns (- 1, No_Write, []) \<and>
   hashmap_remove None (Some [1]) = Returns (- 1, None) \<and>
   hashmap_insert [] (Some one_entry_map) (Some []) [2] = Returns (- 1, Some one_entry_map, []) \<and>
   hashmap_get [] (Some one_entry_map) (Some [2]) True True = Returns (0, No_Write, []) \<and>
   hashmap_remove (Some one_entry_map) (Some [2]) = Returns (0, Some one_entry_map)"
proof -
  have absent: "\<forall>e \<in> set (entries one_entry_map). \<not> key_matches (eq_func one_entry_map) [2] e"
    by (simp add: one_entry_map_simps key_matches_def default_eq_def)
  show ?thesis
    using invalid_argument_or_not_found [of None "Some [1]" "[]" "[2]" True True one_entry_map "[2]"]
      invalid_argument_or_not_found [of "Some one_entry_map" "Some []" "[]" "[2]" True True one_entry_map "[2]"]
      absent one_entry_map_ok
    by simp
qed

text \<open>
  C10. On a map whose bucket array is well formed, with lawful strategy functions, get of a
  non-empty key with a NULL \<open>out_val\<close> or a NULL \<open>out_size\<close> (or both) is a membership
  test: it returns 1 when an entry of the map matches the key and 0 when none does, it
  writes no output and it makes no allocation request (the heap is returned as it was
  given), so it never returns \<open>-1\<close> for want of memory.
\<close>

theorem get_membership_test:
  assumes "buckets_ok m" and "lawful (hash_func m) (eq_func m)" and "k \<noteq> []"
    and "\<not> (ov \<and> os)"
  shows "hashmap_get al (Some m) (Some k) ov os =
           Returns (if \<exists>e \<in> set (entries m). key_matches (eq_func m) k e then 1 else 0,
                    No_Write, al)"
proof (cases "\<exists>e \<in> set (entries m). key_matches (eq_func m) k e")
  case True
  with get_present_no_out [OF assms(1,2,3) True assms(4), of al] show ?thesis by simp
next
  case False
  then have "\<forall>e \<in> set (entries m). \<not> key_matches (eq_func m) k e" by simp
  from get_absent [OF assms(1,3) this, of al ov os] False show ?thesis by simp
qed

theorem get_membership_test_witness:
  "hashmap_get [False] (Some one_entry_map) (Some [1]) True False = Returns (1, No_Write, [False]) \<and>
   hashmap_get [False] (Some one_entry_map) (Some [1]) False True = Returns (1, No_Write, [False]) \<and>
   hashmap_get [False] (Some one_entry_map) (Some [1]) False False = Returns (1, No_Write, [False]) \<and>
   hashmap_get [False] (Some one_entry_map) (Some [2]) True False = Returns (0, No_Write, [False]) \<and>
   hashmap_get [False] (Some one_entry_map) (Some [2]) False False = Returns (0, No_Write, [False])"
proof -
  have present: "\<exists>e \<in> set (entries one_entry_map). key_matches (eq_func one_entry_map) [1] e"
    by (simp add: one_entry_map_simps key_matches_def default_eq_def)
  have absent: "\<not> (\<exists>e \<in> set (entries one_entry_map). key_matches (eq_func one_entry_map) [2] e)"
    by (simp add: one_entry_map_simps key_matches_def default_eq_def)
  have law: "lawful (hash_func one_entry_map) (eq_func one_entry_map)"
    by (simp add: one_entry_map_simps lawful_default)
  have ne: "[1 :: byte] \<noteq> []" "[2 :: byte] \<noteq> []" by simp_all
  have o: "\<not> (True \<and> False)" "\<not> (False \<and> True)" "\<not> (False \<and> False)" by simp_all
  from get_membership_test [OF one_entry_map_ok law ne(1) o(1), of "[False]"]
    get_membership_test [OF one_entry_map_ok law ne(1) o(2), of "[False]"]
    get_membership_test [OF one_entry_map_ok law ne(1) o(3), of "[False]"]
    get_membership_test [OF one_entry_map_ok law ne(2) o(1), of "[False]"]
    get_membership_test [OF one_entry_map_ok law ne(2) o(3), of "[False]"]
    present absent
  show ?thesis by simp
qed


end
